theory Spec2Isabelle
  imports Main "HOL-Library.Word" "HOL-Library.Sublist"
begin

section \<open>JavaScript strings\<close>

text \<open>
  A JavaScript string is a sequence of UTF-16 code units: \<^verbatim>\<open>length\<close>, \<^verbatim>\<open>slice\<close>,
  \<^verbatim>\<open>trim\<close> and the regular expressions of \<^verbatim>\<open>server.js\<close> (none has the \<^verbatim>\<open>u\<close> flag)
  all work on code units. ASCII literals of the source are written \<open>str ''...''\<close>.
\<close>

type_synonym cu = "16 word"
type_synonym jstring = "cu list"

definition str :: "string \<Rightarrow> jstring" where
  "str s = map of_char s"

definition SP :: cu where "SP = 0x20"
definition TAB :: cu where "TAB = 0x09"
definition NL :: cu where "NL = 0x0A"
definition DOT :: cu where "DOT = 0x2E"
definition ZWSP :: cu where "ZWSP = 0x200B"

text \<open>
  The code units that \<^verbatim>\<open>String.prototype.trim\<close> strips and that \<^verbatim>\<open>\s\<close> matches:
  WhiteSpace (TAB, VT, FF, SP, NBSP, ZWNBSP and the category Zs) and LineTerminator
  (LF, CR, LS, PS). U+200B is not among them.
\<close>

definition is_ws :: "cu \<Rightarrow> bool" where
  "is_ws c \<longleftrightarrow>
     c = 0x09 \<or> c = 0x0A \<or> c = 0x0B \<or> c = 0x0C \<or> c = 0x0D \<or> c = 0x20 \<or> c = 0xA0 \<or>
     c = 0x1680 \<or> (0x2000 \<le> c \<and> c \<le> 0x200A) \<or> c = 0x2028 \<or> c = 0x2029 \<or>
     c = 0x202F \<or> c = 0x205F \<or> c = 0x3000 \<or> c = 0xFEFF"

definition trim :: "jstring \<Rightarrow> jstring" where
  "trim s = rev (dropWhile is_ws (rev (dropWhile is_ws s)))"

text \<open>\<^verbatim>\<open>s.slice(a, b)\<close> for indices \<open>0 \<le> a \<le> b\<close>; an end beyond the string is clipped.\<close>

definition slice :: "nat \<Rightarrow> nat \<Rightarrow> jstring \<Rightarrow> jstring" where
  "slice a b s = take (b - a) (drop a s)"

text \<open>\<^verbatim>\<open>Array.prototype.join\<close>\<close>

fun join :: "jstring \<Rightarrow> jstring list \<Rightarrow> jstring" where
  "join sep [] = []"
| "join sep [x] = x"
| "join sep (x # y # ys) = x @ sep @ join sep (y # ys)"

text \<open>
  The conversion of a string to a \<^verbatim>\<open>USVString\<close>, which \<^verbatim>\<open>URLSearchParams\<close> applies to every
  name and value it is given: a lead surrogate followed by a trail surrogate is a pair
  and stays, every other surrogate code unit becomes U+FFFD.
\<close>

definition is_lead :: "cu \<Rightarrow> bool" where
  "is_lead c \<longleftrightarrow> 0xD800 \<le> c \<and> c \<le> 0xDBFF"

definition is_trail :: "cu \<Rightarrow> bool" where
  "is_trail c \<longleftrightarrow> 0xDC00 \<le> c \<and> c \<le> 0xDFFF"

fun toUSVString :: "jstring \<Rightarrow> jstring" where
  "toUSVString [] = []"
| "toUSVString [c] = (if is_lead c \<or> is_trail c then [0xFFFD] else [c])"
| "toUSVString (c # d # s) =
     (if is_lead c \<and> is_trail d then c # d # toUSVString s
      else if is_lead c \<or> is_trail c then 0xFFFD # toUSVString (d # s)
      else c # toUSVString (d # s))"

section \<open>The grammar-check client (\<^verbatim>\<open>runLanguageTool\<close>, \<^verbatim>\<open>languageToolCheck\<close>)\<close>

text \<open>
  A match of the checking service. Every field the code reads is read defensively
  (\<^verbatim>\<open>m.rule?.id\<close>, \<^verbatim>\<open>m.message || ""\<close>, \<^verbatim>\<open>m.replacements || []\<close>, \<^verbatim>\<open>m.context?.text\<close>),
  so every field may be absent; a replacement may lack its \<^verbatim>\<open>value\<close>.
\<close>

record check_match =
  rule_id :: "jstring option"
  message :: "jstring option"
  replacements :: "jstring option list option"
  context_text :: "jstring option"

record lt_request =
  req_text :: jstring
  req_language :: jstring
  req_apiKey :: "jstring option"

datatype failure = JSZipError | PDFParseError | RequestError

text \<open>
  The body of a successful response: its \<^verbatim>\<open>matches\<close> array, if it has one.
  The service is outside the program: \<open>svc n r\<close> is the outcome of the request \<open>r\<close> when
  it is the \<open>n\<close>-th call of the run, \<open>Inl\<close> when the HTTP client rejects (network error,
  timeout after 30 s, error status).
\<close>

type_synonym lt_response = "check_match list option"
type_synonym checker = "nat \<Rightarrow> lt_request \<Rightarrow> failure + lt_response"

record config =
  LT_URL :: jstring
  LT_KEY :: "jstring option"

definition limit :: nat where
  "limit = 20000"

text \<open>The first loop: \<^verbatim>\<open>for (let i = 0; i < fullText.length; i += limit) chunks.push(fullText.slice(i, i + limit))\<close>.\<close>

function slices :: "nat \<Rightarrow> jstring \<Rightarrow> jstring list" where
  "slices i fullText =
     (if i < length fullText then slice i (i + limit) fullText # slices (i + limit) fullText
      else [])"
  by pat_completeness auto
termination
  by (relation "measure (\<lambda>(i, fullText). length fullText - i)") (auto simp: limit_def)

declare slices.simps [simp del]

text \<open>
  The form that is posted, as the service decodes it. \<^verbatim>\<open>payload.set(name, value)\<close> stores
  the value as a \<^verbatim>\<open>USVString\<close>, and \<^verbatim>\<open>payload.toString()\<close> writes the stored values:
  a chunk that holds an unpaired surrogate (one cut out of its pair by the slicing, for
  instance) is not sent as it is.
\<close>

definition payload :: "config \<Rightarrow> jstring \<Rightarrow> jstring \<Rightarrow> lt_request" where
  "payload cfg lang chunk =
     \<lparr>req_text = toUSVString chunk,
      req_language = toUSVString (if lang = [] then str ''auto'' else lang),
      req_apiKey = (case LT_KEY cfg of
                      None \<Rightarrow> None
                    | Some k \<Rightarrow> if k = [] then None else Some (toUSVString k))\<rparr>"

text \<open>
  The second loop. \<open>sent\<close> is the log of the requests issued so far, \<open>allMatches\<close> the
  accumulator; a rejected request is the exception that leaves the function.
\<close>

fun lt_loop ::
  "config \<Rightarrow> checker \<Rightarrow> jstring \<Rightarrow> jstring list \<Rightarrow> lt_request list \<Rightarrow> check_match list
     \<Rightarrow> (failure + check_match list) \<times> lt_request list" where
  "lt_loop cfg svc lang [] sent allMatches = (Inr allMatches, sent)"
| "lt_loop cfg svc lang (chunk # chunks) sent allMatches =
     (if trim chunk = [] then lt_loop cfg svc lang chunks sent allMatches
      else
        (case svc (length sent) (payload cfg lang chunk) of
           Inl e \<Rightarrow> (Inl e, sent @ [payload cfg lang chunk])
         | Inr resp \<Rightarrow>
             lt_loop cfg svc lang chunks (sent @ [payload cfg lang chunk])
               (case resp of
                  None \<Rightarrow> allMatches
                | Some ms \<Rightarrow> if ms \<noteq> [] then allMatches @ ms else allMatches)))"

definition runLanguageTool ::
  "config \<Rightarrow> checker \<Rightarrow> jstring \<Rightarrow> jstring
     \<Rightarrow> (failure + check_match list) \<times> lt_request list" where
  "runLanguageTool cfg svc fullText lang = lt_loop cfg svc lang (slices 0 fullText) [] []"

text \<open>
  The client of the second source file: no chunking, one request for the whole text,
  the credential in a header (not part of the form), the parsed body returned as it is.
  The body is \<^verbatim>\<open>new URLSearchParams({text, language: lang})\<close>, whose values are
  \<^verbatim>\<open>USVString\<close>s as well.
\<close>

definition languageToolCheck ::
  "checker \<Rightarrow> jstring \<Rightarrow> jstring \<Rightarrow> (failure + lt_response) \<times> lt_request list" where
  "languageToolCheck svc txt lang =
     (if txt = [] \<or> trim txt = [] then (Inr (Some []), [])
      else (svc 0 \<lparr>req_text = toUSVString txt, req_language = toUSVString lang,
                    req_apiKey = None\<rparr>,
            [\<lparr>req_text = toUSVString txt, req_language = toUSVString lang,
              req_apiKey = None\<rparr>]))"

section \<open>The report builder (\<^verbatim>\<open>buildReportJSON\<close>)\<close>

text \<open>
  \<^verbatim>\<open>summary.byRule\<close> is an ordinary object literal \<^verbatim>\<open>{}\<close>, so a read
  \<^verbatim>\<open>summary.byRule[key]\<close> that finds no own property continues in \<^verbatim>\<open>Object.prototype\<close>.
  The map holds the own properties; the values the loop can store are numbers and
  strings.
\<close>

datatype jsval = JNum nat | JStr jstring

text \<open>
  The function-valued properties of \<^verbatim>\<open>Object.prototype\<close>: the property name and the
  name of the function found there (\<^verbatim>\<open>constructor\<close> is \<^verbatim>\<open>Object\<close> itself).
\<close>

definition object_prototype_functions :: "(jstring \<times> jstring) list" where
  "object_prototype_functions =
     map (\<lambda>(k, f). (str k, str f))
       [(''constructor'', ''Object''),
        (''__defineGetter__'', ''__defineGetter__''),
        (''__defineSetter__'', ''__defineSetter__''),
        (''hasOwnProperty'', ''hasOwnProperty''),
        (''__lookupGetter__'', ''__lookupGetter__''),
        (''__lookupSetter__'', ''__lookupSetter__''),
        (''isPrototypeOf'', ''isPrototypeOf''),
        (''propertyIsEnumerable'', ''propertyIsEnumerable''),
        (''toString'', ''toString''),
        (''valueOf'', ''valueOf''),
        (''toLocaleString'', ''toLocaleString'')]"

text \<open>What \<^verbatim>\<open>String(f)\<close> is for a built-in function \<^verbatim>\<open>f\<close> (the layout is that of V8).\<close>

definition native_source :: "jstring \<Rightarrow> jstring" where
  "native_source name = str ''function '' @ name @ str ''() { [native code] }''"

text \<open>
  \<^verbatim>\<open>summary.byRule[key] = (summary.byRule[key] || 0) + 1\<close>.
  An own number other than 0 and an own non-empty string are truthy; \<^verbatim>\<open>+ 1\<close> adds to a
  number and appends \<^verbatim>\<open>"1"\<close> to a string. Without an own property the read yields an
  inherited function for the names above (truthy; \<^verbatim>\<open>+\<close> converts it to its source
  text), and \<^verbatim>\<open>undefined\<close> otherwise. \<^verbatim>\<open>__proto__\<close> is an accessor of
  \<^verbatim>\<open>Object.prototype\<close> whose setter ignores a primitive value: that assignment creates
  no property.
\<close>

definition bump :: "(jstring \<rightharpoonup> jsval) \<Rightarrow> jstring \<Rightarrow> (jstring \<rightharpoonup> jsval)" where
  "bump byRule key =
     (if key = str ''__proto__'' then byRule
      else byRule(key \<mapsto>
        (case byRule key of
           Some (JNum n) \<Rightarrow> if n = 0 then JNum 1 else JNum (n + 1)
         | Some (JStr s) \<Rightarrow> if s = [] then JNum 1 else JStr (s @ str ''1'')
         | None \<Rightarrow>
             (case map_of object_prototype_functions key of
                Some f \<Rightarrow> JStr (native_source f @ str ''1'')
              | None \<Rightarrow> JNum 1))))"

text \<open>\<^verbatim>\<open>m.rule?.id || "GENERIC"\<close>: an absent or empty identifier is falsy.\<close>

definition rule_key :: "check_match \<Rightarrow> jstring" where
  "rule_key m =
     (case rule_id m of
        None \<Rightarrow> str ''GENERIC''
      | Some i \<Rightarrow> if i = [] then str ''GENERIC'' else i)"

fun count_rules :: "(jstring \<rightharpoonup> jsval) \<Rightarrow> check_match list \<Rightarrow> (jstring \<rightharpoonup> jsval)" where
  "count_rules byRule [] = byRule"
| "count_rules byRule (m # ms) = count_rules (bump byRule (rule_key m)) ms"

record summary =
  fileName :: jstring
  language_code :: jstring
  textLength :: nat
  totalIssues :: nat
  byRule :: "jstring \<rightharpoonup> jsval"

record report =
  summary :: summary
  matches :: "check_match list"

definition buildReportJSON :: "jstring \<Rightarrow> jstring \<Rightarrow> check_match list \<Rightarrow> nat \<Rightarrow> report" where
  "buildReportJSON fileName' language' matches' textLength' =
     \<lparr>summary =
        \<lparr>fileName = fileName', language_code = language', textLength = textLength',
         totalIssues = length matches', byRule = count_rules Map.empty matches'\<rparr>,
      matches = matches'\<rparr>"

section \<open>The text normalizer (\<^verbatim>\<open>cleanTextBasic\<close>)\<close>

text \<open>
  Each \<^verbatim>\<open>replace\<close> with a global regular expression is a left-to-right scan: at each
  position the expression either matches, and the scan goes on behind the match, or the
  code unit at that position is copied and the scan moves one position on.
\<close>

definition is_sp :: "cu \<Rightarrow> bool" where
  "is_sp c \<longleftrightarrow> c = SP"

definition is_sp_tab :: "cu \<Rightarrow> bool" where
  "is_sp_tab c \<longleftrightarrow> c = SP \<or> c = TAB"

text \<open>The class \<^verbatim>\<open>[,;:!?]\<close>.\<close>

definition is_punct :: "cu \<Rightarrow> bool" where
  "is_punct c \<longleftrightarrow> c = 0x2C \<or> c = 0x3B \<or> c = 0x3A \<or> c = 0x21 \<or> c = 0x3F"

text \<open>\<^verbatim>\<open>.replace(/\u200B/g, "")\<close>\<close>

definition strip_zwsp :: "jstring \<Rightarrow> jstring" where
  "strip_zwsp s = filter (\<lambda>c. c \<noteq> ZWSP) s"

text \<open>\<^verbatim>\<open>.replace(/[ \t]+/g, " ")\<close>: the match is the whole run of blanks.\<close>

function collapse_blanks :: "jstring \<Rightarrow> jstring" where
  "collapse_blanks [] = []"
| "collapse_blanks (c # cs) =
     (if is_sp_tab c then SP # collapse_blanks (dropWhile is_sp_tab cs)
      else c # collapse_blanks cs)"
  by pat_completeness auto
termination
  by (relation "measure length") (auto simp: le_imp_less_Suc length_dropWhile_le)

text \<open>
  \<^verbatim>\<open>.replace(/ *\n */g, "\n")\<close>: there is a match at a position when the spaces from
  there on are followed by a newline; it extends over the spaces behind the newline.
\<close>

function trim_newlines :: "jstring \<Rightarrow> jstring" where
  "trim_newlines [] = []"
| "trim_newlines (c # cs) =
     (case dropWhile is_sp (c # cs) of
        [] \<Rightarrow> c # trim_newlines cs
      | d # ds \<Rightarrow>
          if d = NL then NL # trim_newlines (dropWhile is_sp ds)
          else c # trim_newlines cs)"
  by pat_completeness auto
termination
proof (relation "measure length", goal_cases)
  case (3 c cs d ds)
  have "length (d # ds) \<le> length (c # cs)"
    using length_dropWhile_le [of is_sp "c # cs"] 3 by metis
  moreover have "length (dropWhile is_sp ds) \<le> length ds"
    by (rule length_dropWhile_le)
  ultimately show ?case by simp
qed simp_all

text \<open>
  \<^verbatim>\<open>.replace(/ ?([,;:!?]) ?/g, "$1 ")\<close>: an optional space, a punctuation mark, an
  optional space; the replacement is the mark and one space.
\<close>

definition skip_space :: "jstring \<Rightarrow> jstring" where
  "skip_space cs = (case cs of [] \<Rightarrow> [] | c # cs' \<Rightarrow> if c = SP then cs' else cs)"

function space_punct :: "jstring \<Rightarrow> jstring" where
  "space_punct [] = []"
| "space_punct (c # cs) =
     (if c = SP \<and> cs \<noteq> [] \<and> is_punct (hd cs)
        then hd cs # SP # space_punct (skip_space (tl cs))
      else if is_punct c then c # SP # space_punct (skip_space cs)
      else c # space_punct cs)"
  by pat_completeness auto
termination
proof (relation "measure length", goal_cases)
  case (2 c cs)
  have "length (skip_space w) \<le> length w" for w
    by (simp add: skip_space_def split: list.splits)
  from this [of "tl cs"] show ?case by simp
next
  case (3 c cs)
  have "length (skip_space w) \<le> length w" for w
    by (simp add: skip_space_def split: list.splits)
  from this [of cs] show ?case by simp
qed simp_all

text \<open>\<^verbatim>\<open>.replace(/ \./g, ".")\<close>\<close>

fun unspace_dot :: "jstring \<Rightarrow> jstring" where
  "unspace_dot [] = []"
| "unspace_dot [c] = [c]"
| "unspace_dot (c # d # cs) =
     (if c = SP \<and> d = DOT then DOT # unspace_dot cs else c # unspace_dot (d # cs))"

text \<open>\<^verbatim>\<open>.replace(/[ ]{2,}/g, " ")\<close>\<close>

function collapse_spaces :: "jstring \<Rightarrow> jstring" where
  "collapse_spaces [] = []"
| "collapse_spaces [c] = [c]"
| "collapse_spaces (c # d # cs) =
     (if c = SP \<and> d = SP then SP # collapse_spaces (dropWhile is_sp cs)
      else c # collapse_spaces (d # cs))"
  by pat_completeness auto
termination
  by (relation "measure length") (auto simp: le_imp_less_Suc length_dropWhile_le le_SucI)

text \<open>\<^verbatim>\<open>if (!str) return str;\<close> and the chain of replacements, \<^verbatim>\<open>trim\<close> last.\<close>

definition cleanTextBasic :: "jstring \<Rightarrow> jstring" where
  "cleanTextBasic s =
     (if s = [] then s
      else trim (collapse_spaces (unspace_dot (space_punct (trim_newlines
             (collapse_blanks (strip_zwsp s)))))))"

section \<open>The DOCX sanitizers (\<^verbatim>\<open>processDOCXBasic\<close>, \<^verbatim>\<open>cleanDOCX\<close>)\<close>

text \<open>
  An opened archive (a \<^verbatim>\<open>JSZip\<close> object) is the map from the names of its file entries
  to their contents read as strings; \<^verbatim>\<open>zip.file(name)\<close> is \<^verbatim>\<open>null\<close> where the map is
  undefined. Folder entries carry no content and are left out. Opening the archive is
  the library's work: \<open>loadAsync\<close> is taken as a parameter, \<open>None\<close> when it rejects.
  \<^verbatim>\<open>generateAsync\<close> writes the entries out again; the result of a sanitizer is the
  archive written.
\<close>

type_synonym archive = "jstring \<rightharpoonup> jstring"

text \<open>
  \<open>find_sub pat s\<close> splits \<open>s\<close> at the leftmost occurrence of \<open>pat\<close>: what \<^verbatim>\<open>indexOf\<close>
  finds, and where a scan for a literal stops.
\<close>

fun find_sub :: "jstring \<Rightarrow> jstring \<Rightarrow> (jstring \<times> jstring) option" where
  "find_sub pat [] = (if pat = [] then Some ([], []) else None)"
| "find_sub pat (c # cs) =
     (if prefix pat (c # cs) then Some ([], drop (length pat) (c # cs))
      else map_option (\<lambda>(before, after). (c # before, after)) (find_sub pat cs))"

text \<open>
  \<^verbatim>\<open>s.replace(/OPEN.*?CLOSE/s, repl)\<close> for literal \<^verbatim>\<open>OPEN\<close> and \<^verbatim>\<open>CLOSE\<close> and a
  replacement without \<^verbatim>\<open>$\<close>: no \<^verbatim>\<open>g\<close> flag, so only the leftmost match is replaced. With
  the \<^verbatim>\<open>s\<close> flag the lazy \<^verbatim>\<open>.*?\<close> runs over anything, so the match starts at the
  leftmost \<^verbatim>\<open>OPEN\<close> and ends with the first \<^verbatim>\<open>CLOSE\<close> behind it; if no \<^verbatim>\<open>CLOSE\<close> follows
  the leftmost \<^verbatim>\<open>OPEN\<close>, none follows a later one.
\<close>

definition replace_first_between :: "jstring \<Rightarrow> jstring \<Rightarrow> jstring \<Rightarrow> jstring \<Rightarrow> jstring" where
  "replace_first_between opn cls repl s =
     (case find_sub opn s of
        None \<Rightarrow> s
      | Some (before, rest) \<Rightarrow>
          (case find_sub cls rest of
             None \<Rightarrow> s
           | Some (inner, after) \<Rightarrow> before @ repl @ after))"

definition blank_core :: "jstring \<Rightarrow> jstring" where
  "blank_core coreXml =
     replace_first_between (str ''<cp:keywords>'') (str ''</cp:keywords>'')
         (str ''<cp:keywords></cp:keywords>'')
       (replace_first_between (str ''<dc:subject>'') (str ''</dc:subject>'')
           (str ''<dc:subject></dc:subject>'')
         (replace_first_between (str ''<dc:title>'') (str ''</dc:title>'')
             (str ''<dc:title></dc:title>'')
           (replace_first_between (str ''<cp:lastModifiedBy>'') (str ''</cp:lastModifiedBy>'')
               (str ''<cp:lastModifiedBy></cp:lastModifiedBy>'')
             (replace_first_between (str ''<dc:creator>'') (str ''</dc:creator>'')
                 (str ''<dc:creator></dc:creator>'') coreXml))))"

text \<open>
  The leftmost match of \<^verbatim>\<open><w:t[^>]*>([\s\S]*?)<\/w:t>\<close>: the leftmost \<^verbatim>\<open><w:t\<close>, then
  everything up to the first \<^verbatim>\<open>>\<close>, then the shortest text up to \<^verbatim>\<open></w:t>\<close>. The result
  is the text before the match, the opening tag, the captured group and the text behind
  the match.
\<close>

definition wt_match :: "jstring \<Rightarrow> (jstring \<times> jstring \<times> jstring \<times> jstring) option" where
  "wt_match s =
     (case find_sub (str ''<w:t'') s of
        None \<Rightarrow> None
      | Some (before, r1) \<Rightarrow>
          (case find_sub (str ''>'') r1 of
             None \<Rightarrow> None
           | Some (attrs, r2) \<Rightarrow>
               (case find_sub (str ''</w:t>'') r2 of
                  None \<Rightarrow> None
                | Some (inner, after) \<Rightarrow>
                    Some (before, str ''<w:t'' @ attrs @ str ''>'', inner, after))))"

text \<open>
  \<^verbatim>\<open>xml.replace(re, callback)\<close> with the \<^verbatim>\<open>g\<close> flag: every match, left to right, is
  replaced by what the callback returns for the whole match and its group.
\<close>

function replace_wt :: "(jstring \<Rightarrow> jstring \<Rightarrow> jstring) \<Rightarrow> jstring \<Rightarrow> jstring" where
  "replace_wt callback s =
     (case wt_match s of
        None \<Rightarrow> s
      | Some (before, opening, inner, after) \<Rightarrow>
          before @ callback (opening @ inner @ str ''</w:t>'') inner @ replace_wt callback after)"
  by pat_completeness auto

text \<open>The captured groups of all matches, in order (the callback of \<^verbatim>\<open>extractTextFromDOCX\<close>).\<close>

function wt_inners :: "jstring \<Rightarrow> jstring list" where
  "wt_inners s =
     (case wt_match s of
        None \<Rightarrow> []
      | Some (before, opening, inner, after) \<Rightarrow> inner # wt_inners after)"
  by pat_completeness auto

text \<open>
  The replacement text of \<^verbatim>\<open>String.prototype.replace\<close> with a string pattern:
  \<^verbatim>\<open>$$\<close> is a dollar sign, \<^verbatim>\<open>$&\<close> the matched text, \<^verbatim>\<open>$`\<close> and \<^verbatim>\<open>$'\<close> the text before and
  behind the match; there are no groups, so \<^verbatim>\<open>$1\<close> and any other \<^verbatim>\<open>$\<close> stay as they are.
\<close>

fun get_substitution :: "jstring \<Rightarrow> jstring \<Rightarrow> jstring \<Rightarrow> jstring \<Rightarrow> jstring" where
  "get_substitution matched before after [] = []"
| "get_substitution matched before after [c] = [c]"
| "get_substitution matched before after (c # d # cs) =
     (if c = 0x24 \<and> d = 0x24 then 0x24 # get_substitution matched before after cs
      else if c = 0x24 \<and> d = 0x26 then matched @ get_substitution matched before after cs
      else if c = 0x24 \<and> d = 0x60 then before @ get_substitution matched before after cs
      else if c = 0x24 \<and> d = 0x27 then after @ get_substitution matched before after cs
      else c # get_substitution matched before after (d # cs))"

text \<open>\<^verbatim>\<open>s.replace(pat, repl)\<close> for a string \<^verbatim>\<open>pat\<close>: the first occurrence only.\<close>

definition string_replace :: "jstring \<Rightarrow> jstring \<Rightarrow> jstring \<Rightarrow> jstring" where
  "string_replace pat repl s =
     (case find_sub pat s of
        None \<Rightarrow> s
      | Some (before, after) \<Rightarrow> before @ get_substitution pat before after repl @ after)"

text \<open>The callback \<^verbatim>\<open>(m, inner) => m.replace(inner, cleanTextBasic(inner))\<close>.\<close>

definition clean_run :: "jstring \<Rightarrow> jstring \<Rightarrow> jstring" where
  "clean_run m inner = string_replace inner (cleanTextBasic inner) m"

definition core_path :: jstring where "core_path = str ''docProps/core.xml''"
definition app_path :: jstring where "app_path = str ''docProps/app.xml''"
definition custom_path :: jstring where "custom_path = str ''docProps/custom.xml''"
definition doc_path :: jstring where "doc_path = str ''word/document.xml''"

definition processDOCXBasic :: "('b \<Rightarrow> archive option) \<Rightarrow> 'b \<Rightarrow> failure + archive" where
  "processDOCXBasic loadAsync inputBuffer =
     (case loadAsync inputBuffer of
        None \<Rightarrow> Inl JSZipError
      | Some zip0 \<Rightarrow>
          (let zip1 = (case zip0 core_path of
                         None \<Rightarrow> zip0
                       | Some coreXml \<Rightarrow> zip0(core_path \<mapsto> blank_core coreXml));
               zip2 = (if zip1 custom_path \<noteq> None then zip1(custom_path := None) else zip1);
               zip3 = (case zip2 doc_path of
                         None \<Rightarrow> zip2
                       | Some xml \<Rightarrow> zip2(doc_path \<mapsto> replace_wt clean_run xml))
           in Inr zip3))"

text \<open>\<^verbatim>\<open>extractTextFromDOCX\<close> of \<^verbatim>\<open>server.js\<close>.\<close>

definition extractTextFromDOCX :: "('b \<Rightarrow> archive option) \<Rightarrow> 'b \<Rightarrow> failure + jstring" where
  "extractTextFromDOCX loadAsync inputBuffer =
     (case loadAsync inputBuffer of
        None \<Rightarrow> Inl JSZipError
      | Some zip0 \<Rightarrow>
          (case zip0 doc_path of
             None \<Rightarrow> Inr []
           | Some xml \<Rightarrow>
               Inr (cleanTextBasic (concat (map (\<lambda>inner. inner @ [SP]) (wt_inners xml))))))"

text \<open>
  The sanitizer of the second source file. \<^verbatim>\<open>zip.folder("customXml")\<close> creates the folder
  when it is missing and returns an object, so the \<^verbatim>\<open>remove\<close> behind it always runs.
  \<^verbatim>\<open>zip.remove(name)\<close> deletes the file of that name, and without such a file every
  entry below the folder of that name.
\<close>

definition zip_remove :: "jstring \<Rightarrow> archive \<Rightarrow> archive" where
  "zip_remove name zip0 =
     (if zip0 name \<noteq> None then zip0(name := None)
      else (\<lambda>n. if prefix (name @ str ''/'') n then None else zip0 n))"

text \<open>\<^verbatim>\<open>.replace(/\s+/g, " ")\<close>\<close>

function collapse_ws :: "jstring \<Rightarrow> jstring" where
  "collapse_ws [] = []"
| "collapse_ws (c # cs) =
     (if is_ws c then SP # collapse_ws (dropWhile is_ws cs) else c # collapse_ws cs)"
  by pat_completeness auto
termination
  by (relation "measure length") (auto simp: le_imp_less_Suc length_dropWhile_le)

text \<open>\<^verbatim>\<open>.replace(/PAT/g, repl)\<close> for a literal, non-empty \<^verbatim>\<open>PAT\<close> and \<^verbatim>\<open>repl\<close> without \<^verbatim>\<open>$\<close>.\<close>

function replace_all :: "jstring \<Rightarrow> jstring \<Rightarrow> jstring \<Rightarrow> jstring" where
  "replace_all pat repl [] = []"
| "replace_all pat repl (c # cs) =
     (if pat \<noteq> [] \<and> prefix pat (c # cs) then repl @ replace_all pat repl (drop (length pat) (c # cs))
      else c # replace_all pat repl cs)"
  by pat_completeness auto
termination
  by (relation "measure (\<lambda>(pat, repl, s). length s)") (auto simp: Suc_le_eq)

definition tidy_xml :: "jstring \<Rightarrow> jstring" where
  "tidy_xml xml =
     replace_all (str '' ?'') (str ''?'')
       (replace_all (str '' !'') (str ''!'')
         (replace_all (str '' .'') (str ''.'')
           (replace_all (str '' ,'') (str '','')
             (collapse_ws xml))))"

definition cleanDOCX :: "('b \<Rightarrow> archive option) \<Rightarrow> 'b \<Rightarrow> failure + archive" where
  "cleanDOCX loadAsync buffer =
     (case loadAsync buffer of
        None \<Rightarrow> Inl JSZipError
      | Some zip0 \<Rightarrow>
          (let zip1 = fold (\<lambda>f z. if z f \<noteq> None then zip_remove f z else z)
                        [core_path, app_path, custom_path] zip0;
               zip2 = zip_remove (str ''customXml'') zip1;
               zip3 = (case zip2 doc_path of
                         None \<Rightarrow> zip2
                       | Some xml \<Rightarrow> zip2(doc_path \<mapsto> tidy_xml xml))
           in Inr zip3))"

section \<open>Core-properties entries made of plain elements\<close>

text \<open>
  The names of the five elements that \<^verbatim>\<open>processDOCXBasic\<close> blanks, in the order of its
  replacements, and the tags that its patterns and replacement texts spell out.
\<close>

definition core_fields :: "jstring list" where
  "core_fields =
     [str ''dc:creator'', str ''cp:lastModifiedBy'', str ''dc:title'', str ''dc:subject'',
      str ''cp:keywords'']"

definition open_tag :: "jstring \<Rightarrow> jstring" where
  "open_tag name = str ''<'' @ name @ str ''>''"

definition close_tag :: "jstring \<Rightarrow> jstring" where
  "close_tag name = str ''</'' @ name @ str ''>''"

definition element :: "jstring \<Rightarrow> jstring \<Rightarrow> jstring" where
  "element name inner = open_tag name @ inner @ close_tag name"

text \<open>
  An input of the kind that the frame property of the replacements is stated for: a
  text \<open>s0\<close>, then elements written without attributes, each with its name, its text and
  the text that follows it up to the next element. A text is plain when it holds none
  of the five opening tags; the elements are plain when each is one of the five, its
  text is plain and does not hold its own closing tag, and the text behind it is plain.
\<close>

fun elements :: "(jstring \<times> jstring \<times> jstring) list \<Rightarrow> jstring" where
  "elements [] = []"
| "elements ((name, inner, behind) # es) = element name inner @ behind @ elements es"

definition plain_text :: "jstring \<Rightarrow> bool" where
  "plain_text s \<longleftrightarrow> (\<forall>name \<in> set core_fields. \<not> sublist (open_tag name) s)"

definition plain_elements :: "(jstring \<times> jstring \<times> jstring) list \<Rightarrow> bool" where
  "plain_elements es \<longleftrightarrow>
     (\<forall>(name, inner, behind) \<in> set es.
        name \<in> set core_fields \<and> plain_text inner \<and> \<not> sublist (close_tag name) inner
        \<and> plain_text behind)"

text \<open>
  A device of the proofs: the elements with the text of the first one of a name removed,
  which is what one replacement leaves of an entry made of plain elements.
\<close>

fun blank_first ::
  "jstring \<Rightarrow> (jstring \<times> jstring \<times> jstring) list \<Rightarrow> (jstring \<times> jstring \<times> jstring) list" where
  "blank_first name [] = []"
| "blank_first name ((n, inner, behind) # es) =
     (if n = name then (n, [], behind) # es else (n, inner, behind) # blank_first name es)"

section \<open>The PDF sanitizers (\<^verbatim>\<open>processPDFBasic\<close>, \<^verbatim>\<open>cleanPDF\<close>)\<close>

text \<open>
  A page of a document is one that was parsed from the input (or copied from such a
  page), or the blank page that the library creates by \<^verbatim>\<open>addPage()\<close> without an argument.
\<close>

datatype 'p pdf_page = Page 'p | BlankPage

text \<open>
  A PDF document, as far as the code reaches it through \<^verbatim>\<open>pdf-lib\<close>: its pages, the Info
  entries that the setters write, and the other objects of the document (further Info
  entries, XMP metadata, outlines, attachments), which no call of the code touches.
  The Keywords entry is one string. A date entry is written as
  \<^verbatim>\<open>D:YYYYMMDDHHmmSSZ\<close>, in whole seconds; the field holds the time that the entry denotes,
  in milliseconds since the epoch. Parsing is the library's work: \<open>load\<close> is a parameter,
  \<open>None\<close> when it throws. \<open>clock n\<close> is the \<open>n\<close>-th reading of the system time during the
  call, in milliseconds.
\<close>

record ('p, 'o) pdf_document =
  pages :: "'p pdf_page list"
  title :: "jstring option"
  author :: "jstring option"
  subject :: "jstring option"
  pdf_keywords :: "jstring option"
  producer :: "jstring option"
  creator :: "jstring option"
  creationDate :: "int option"
  modificationDate :: "int option"
  other_objects :: "'o list"

text \<open>The setters of \<^verbatim>\<open>PDFDocument\<close>. \<^verbatim>\<open>setKeywords\<close> stores \<^verbatim>\<open>keywords.join(" ")\<close>.\<close>

definition setTitle :: "jstring \<Rightarrow> ('p, 'o) pdf_document \<Rightarrow> ('p, 'o) pdf_document" where
  "setTitle s d = d\<lparr>title := Some s\<rparr>"

definition setAuthor :: "jstring \<Rightarrow> ('p, 'o) pdf_document \<Rightarrow> ('p, 'o) pdf_document" where
  "setAuthor s d = d\<lparr>author := Some s\<rparr>"

definition setSubject :: "jstring \<Rightarrow> ('p, 'o) pdf_document \<Rightarrow> ('p, 'o) pdf_document" where
  "setSubject s d = d\<lparr>subject := Some s\<rparr>"

definition setKeywords :: "jstring list \<Rightarrow> ('p, 'o) pdf_document \<Rightarrow> ('p, 'o) pdf_document" where
  "setKeywords ks d = d\<lparr>pdf_keywords := Some (join [SP] ks)\<rparr>"

definition setProducer :: "jstring \<Rightarrow> ('p, 'o) pdf_document \<Rightarrow> ('p, 'o) pdf_document" where
  "setProducer s d = d\<lparr>producer := Some s\<rparr>"

definition setCreator :: "jstring \<Rightarrow> ('p, 'o) pdf_document \<Rightarrow> ('p, 'o) pdf_document" where
  "setCreator s d = d\<lparr>creator := Some s\<rparr>"

text \<open>
  \<^verbatim>\<open>PDFString.fromDate\<close> prints year, month, day, hours, minutes and seconds of the date
  in UTC and drops the milliseconds.
\<close>

definition PDFString_fromDate :: "int \<Rightarrow> int" where
  "PDFString_fromDate ms = ms - ms mod 1000"

definition setCreationDate :: "int \<Rightarrow> ('p, 'o) pdf_document \<Rightarrow> ('p, 'o) pdf_document" where
  "setCreationDate ms d = d\<lparr>creationDate := Some (PDFString_fromDate ms)\<rparr>"

definition setModificationDate :: "int \<Rightarrow> ('p, 'o) pdf_document \<Rightarrow> ('p, 'o) pdf_document" where
  "setModificationDate ms d = d\<lparr>modificationDate := Some (PDFString_fromDate ms)\<rparr>"

definition pdf_lib_name :: jstring where
  "pdf_lib_name = str ''pdf-lib (https://github.com/Hopding/pdf-lib)''"

text \<open>
  What the library does to the Info entries when it loads a document with
  \<^verbatim>\<open>updateMetadata\<close> (given in \<^verbatim>\<open>server.js\<close>, the default elsewhere) and when it creates one.
\<close>

definition updateInfoDict :: "int \<Rightarrow> ('p, 'o) pdf_document \<Rightarrow> ('p, 'o) pdf_document" where
  "updateInfoDict now d =
     (let d1 = setModificationDate now (setProducer pdf_lib_name d);
          d2 = (if creator d1 = None then setCreator pdf_lib_name d1 else d1)
      in if creationDate d2 = None then setCreationDate now d2 else d2)"

definition PDFDocument_create :: "int \<Rightarrow> ('p, 'o) pdf_document" where
  "PDFDocument_create now =
     updateInfoDict now
       \<lparr>pages = [], title = None, author = None, subject = None, pdf_keywords = None,
        producer = None, creator = None, creationDate = None, modificationDate = None,
        other_objects = []\<rparr>"

definition getPageIndices :: "('p, 'o) pdf_document \<Rightarrow> nat list" where
  "getPageIndices d = [0..<length (pages d)]"

definition copyPages :: "('p, 'o) pdf_document \<Rightarrow> nat list \<Rightarrow> 'p pdf_page list" where
  "copyPages src indices = map (\<lambda>i. pages src ! i) indices"

definition addPage :: "'p pdf_page \<Rightarrow> ('p, 'o) pdf_document \<Rightarrow> ('p, 'o) pdf_document" where
  "addPage p d = d\<lparr>pages := pages d @ [p]\<rparr>"

text \<open>
  \<^verbatim>\<open>save()\<close> with its default options: \<^verbatim>\<open>addDefaultPage\<close> is on, so a document without any
  page gets a blank one before it is written. The result of a sanitizer is the document
  written.
\<close>

definition save :: "('p, 'o) pdf_document \<Rightarrow> ('p, 'o) pdf_document" where
  "save d = (if length (pages d) = 0 then addPage BlankPage d else d)"

text \<open>\<^verbatim>\<open>processPDFBasic\<close>: the loaded document itself is edited and saved; \<^verbatim>\<open>new Date(0)\<close>.\<close>

definition processPDFBasic ::
  "('b \<Rightarrow> ('p, 'o) pdf_document option) \<Rightarrow> (nat \<Rightarrow> int) \<Rightarrow> 'b \<Rightarrow> failure + ('p, 'o) pdf_document" where
  "processPDFBasic load clock inputBuffer =
     (case load inputBuffer of
        None \<Rightarrow> Inl PDFParseError
      | Some loaded \<Rightarrow>
          (let pdfDoc = updateInfoDict (clock 0) loaded;
               pdfDoc = setTitle [] pdfDoc;
               pdfDoc = setAuthor [] pdfDoc;
               pdfDoc = setSubject [] pdfDoc;
               pdfDoc = setKeywords [] pdfDoc;
               pdfDoc = setProducer [] pdfDoc;
               pdfDoc = setCreator [] pdfDoc;
               epoch = 0;
               pdfDoc = setCreationDate epoch pdfDoc;
               pdfDoc = setModificationDate epoch pdfDoc
           in Inr (save pdfDoc)))"

text \<open>\<^verbatim>\<open>cleanPDF\<close>: the pages are copied into a new document; \<^verbatim>\<open>new Date()\<close> twice.\<close>

definition cleanPDF ::
  "('b \<Rightarrow> ('p, 'o) pdf_document option) \<Rightarrow> (nat \<Rightarrow> int) \<Rightarrow> 'b \<Rightarrow> failure + ('p, 'o) pdf_document" where
  "cleanPDF load clock buffer =
     (case load buffer of
        None \<Rightarrow> Inl PDFParseError
      | Some loaded \<Rightarrow>
          (let src = updateInfoDict (clock 0) loaded;
               dst = PDFDocument_create (clock 1);
               pages' = copyPages src (getPageIndices src);
               dst = fold addPage pages' dst;
               dst = setTitle [] dst;
               dst = setAuthor [] dst;
               dst = setSubject [] dst;
               dst = setKeywords [] dst;
               dst = setProducer [] dst;
               dst = setCreator [] dst;
               dst = setCreationDate (clock 2) dst;
               dst = setModificationDate (clock 3) dst
           in Inr (save dst)))"

section \<open>The rendering of the report (\<^verbatim>\<open>buildReportHTML\<close>)\<close>

text \<open>The decimal digits of a number, as a template literal prints it.\<close>

function dec :: "nat \<Rightarrow> jstring" where
  "dec n = (if n < 10 then [0x30 + of_nat n] else dec (n div 10) @ [0x30 + of_nat (n mod 10)])"
  by pat_completeness auto
termination
  by (relation "measure id") auto

declare dec.simps [simp del]

text \<open>\<^verbatim>\<open>.replace(/</g, "&lt;")\<close>\<close>

definition escape_lt :: "jstring \<Rightarrow> jstring" where
  "escape_lt s = concat (map (\<lambda>c. if c = 0x3C then str ''&lt;'' else [c]) s)"

text \<open>The fixed text of the two template literals, cut at their placeholders.\<close>

definition html_head :: jstring where
  \<open>html_head =
     str ''<!doctype html>\<newline>''
     @ str ''<html lang="fr">\<newline>''
     @ str ''<head>\<newline>''
     @ str ''<meta charset="utf-8"/>\<newline>''
     @ str ''<title>DocSafe ''
     @ [0x2014]
     @ str '' Rapport LanguageTool</title>\<newline>''
     @ str ''<meta name="viewport" content="width=device-width, initial-scale=1"/>\<newline>''
     @ str ''<style>\<newline>''
     @ str ''body{font-family:ui-sans-serif,system-ui,-apple-system,Segoe UI,Roboto,Ubuntu,Cantarell,Noto Sans,sans-serif;background:#0f172a;color:#e5e7eb;margin:0;padding:24px;}\<newline>''
     @ str ''.card{background:#0b1220;border:1px solid #1f2937;border-radius:16px;max-width:1000px;margin:0 auto;box-shadow:0 10px 25px rgba(0,0,0,.35);}\<newline>''
     @ str ''.card h1{font-size:22px;margin:0;padding:16px 20px;border-bottom:1px solid #1f2937;}\<newline>''
     @ str ''.section{padding:16px 20px;}\<newline>''
     @ str ''.kv{display:flex;flex-wrap:wrap;gap:12px;font-size:14px;}\<newline>''
     @ str ''.kv div{background:#111827;border:1px solid #1f2937;padding:10px 12px;border-radius:10px;}\<newline>''
     @ str ''.table{width:100%;border-collapse:collapse;margin-top:16px;font-size:14px;background:#0b1220;}\<newline>''
     @ str ''th{background:#111827;text-align:left;padding:10px;border-bottom:1px solid #1f2937;}\<newline>''
     @ str ''td{vertical-align:top;}\<newline>''
     @ str ''</style>\<newline>''
     @ str ''</head>\<newline>''
     @ str ''<body>\<newline>''
     @ str ''  <div class="card">\<newline>''
     @ str ''    <h1>Rapport LanguageTool</h1>\<newline>''
     @ str ''    <div class="section">\<newline>''
     @ str ''      <div class="kv">\<newline>''
     @ str ''        <div><b>Fichier:</b> ''\<close>

definition html_language :: jstring where
  \<open>html_language =
     str ''</div>\<newline>''
     @ str ''        <div><b>Langue:</b> ''\<close>

definition html_length :: jstring where
  \<open>html_length =
     str ''</div>\<newline>''
     @ str ''        <div><b>Longueur texte:</b> ''\<close>

definition html_total :: jstring where
  \<open>html_total =
     str ''</div>\<newline>''
     @ str ''        <div><b>Total issues:</b> ''\<close>

definition html_table :: jstring where
  \<open>html_table =
     str ''</div>\<newline>''
     @ str ''      </div>\<newline>''
     @ str ''      <table class="table">\<newline>''
     @ str ''        <thead>\<newline>''
     @ str ''          <tr>\<newline>''
     @ str ''            <th>#</th><th>R''
     @ [0xE8]
     @ str ''gle</th><th>Message</th><th>Suggestions</th><th>Contexte</th>\<newline>''
     @ str ''          </tr>\<newline>''
     @ str ''        </thead>\<newline>''
     @ str ''        <tbody>\<newline>''
     @ str ''          ''\<close>

definition html_foot :: jstring where
  \<open>html_foot =
     str ''\<newline>''
     @ str ''        </tbody>\<newline>''
     @ str ''      </table>\<newline>''
     @ str ''    </div>\<newline>''
     @ str ''  </div>\<newline>''
     @ str ''</body>\<newline>''
     @ str ''</html>''\<close>

definition no_suggestion_row :: jstring where
  \<open>no_suggestion_row =
     str ''<tr><td colspan="5" style="padding:10px;">Aucune suggestion.</td></tr>''\<close>

definition row_index :: jstring where
  \<open>row_index =
     str ''<tr>\<newline>''
     @ str ''        <td style="padding:8px;border-bottom:1px solid #e5e7eb;">''\<close>

definition row_rule :: jstring where
  \<open>row_rule =
     str ''</td>\<newline>''
     @ str ''        <td style="padding:8px;border-bottom:1px solid #e5e7eb;">''\<close>

definition row_message :: jstring where
  \<open>row_message =
     str ''</td>\<newline>''
     @ str ''        <td style="padding:8px;border-bottom:1px solid #e5e7eb;">''\<close>

definition row_suggestions :: jstring where
  \<open>row_suggestions =
     str ''</td>\<newline>''
     @ str ''        <td style="padding:8px;border-bottom:1px solid #e5e7eb;">''\<close>

definition row_context :: jstring where
  \<open>row_context =
     str ''</td>\<newline>''
     @ str ''        <td style="padding:8px;border-bottom:1px solid #e5e7eb;">''\<close>

definition row_end :: jstring where
  \<open>row_end =
     str ''</td>\<newline>''
     @ str ''      </tr>''\<close>

text \<open>
  One row of the table. \<^verbatim>\<open>join\<close> prints a missing \<^verbatim>\<open>value\<close> as the empty string;
  \<^verbatim>\<open>repl || "-"\<close> and the other \<^verbatim>\<open>||\<close> replace an absent or empty text.
\<close>

definition html_row :: "check_match \<Rightarrow> nat \<Rightarrow> jstring" where
  "html_row m idx =
     (let repl = join (str '', '')
                   (map (\<lambda>r. case r of None \<Rightarrow> [] | Some v \<Rightarrow> v)
                      (take 3 (case replacements m of None \<Rightarrow> [] | Some rs \<Rightarrow> rs)));
          context = (case context_text m of None \<Rightarrow> [] | Some t \<Rightarrow> t)
      in row_index @ dec (idx + 1)
         @ row_rule @ (case rule_id m of None \<Rightarrow> [] | Some i \<Rightarrow> i)
         @ row_message @ escape_lt (case message m of None \<Rightarrow> [] | Some t \<Rightarrow> t)
         @ row_suggestions @ escape_lt (if repl = [] then str ''-'' else repl)
         @ row_context @ escape_lt context
         @ row_end)"

definition buildReportHTML :: "report \<Rightarrow> jstring" where
  "buildReportHTML reportJSON =
     (let rows = concat (map (\<lambda>(idx, m). html_row m idx) (enumerate 0 (matches reportJSON)))
      in html_head @ fileName (summary reportJSON)
         @ html_language @ language_code (summary reportJSON)
         @ html_length @ dec (textLength (summary reportJSON))
         @ html_total @ dec (totalIssues (summary reportJSON))
         @ html_table @ (if rows = [] then no_suggestion_row else rows)
         @ html_foot)"

section \<open>The report-bundle request (\<^verbatim>\<open>POST /clean-v2\<close> of \<^verbatim>\<open>server.js\<close>)\<close>

text \<open>
  What the handler takes from outside: the two parsers, the text extraction of
  \<^verbatim>\<open>pdf-parse\<close> (\<open>None\<close> when it throws), the system time, \<^verbatim>\<open>JSON.stringify\<close> for the
  report, the configuration and the checking service.
\<close>

record ('b, 'p, 'o) externals =
  zip_loader :: "'b \<Rightarrow> archive option"
  pdf_loader :: "'b \<Rightarrow> ('p, 'o) pdf_document option"
  pdf_parser :: "('p, 'o) pdf_document \<Rightarrow> jstring option"
  system_clock :: "nat \<Rightarrow> int"
  json_stringify :: "report \<Rightarrow> jstring"
  configuration :: config
  service :: checker

record 'b upload =
  originalname :: jstring
  content :: 'b

record 'b request =
  req_file :: "'b upload option"
  lt_language :: "jstring option"

datatype ('p, 'o) entry =
  CleanedPdf "('p, 'o) pdf_document" | CleanedDocx archive | TextFile jstring

text \<open>
  A response is a JSON error with its status, or a download: content type, file name
  and the entries of the archive sent.
\<close>

datatype ('p, 'o) response =
  Error nat jstring
| Download jstring jstring "jstring \<rightharpoonup> ('p, 'o) entry"

text \<open>
  \<^verbatim>\<open>toLowerCase\<close> on the letters A to Z. The handler only compares the end of the
  lowered name with \<^verbatim>\<open>.pdf\<close> and \<^verbatim>\<open>.docx\<close>, and no code unit outside A to Z is lowered
  to one of their letters.
\<close>

definition toLowerCase :: "jstring \<Rightarrow> jstring" where
  "toLowerCase s = map (\<lambda>c. if 0x41 \<le> c \<and> c \<le> 0x5A then c + 0x20 else c) s"

text \<open>\<^verbatim>\<open>name.replace(/\.EXT$/i, "")\<close> for the extensions \<^verbatim>\<open>pdf\<close> and \<^verbatim>\<open>docx\<close>.\<close>

definition strip_ext :: "jstring \<Rightarrow> jstring \<Rightarrow> jstring" where
  "strip_ext ext name =
     (if suffix (str ''.'' @ ext) (toLowerCase name) then take (length name - length (str ''.'' @ ext)) name
      else name)"

text \<open>\<^verbatim>\<open>name.replace(/\.(pdf|docx)$/i, "")\<close>: one extension, at the end of the name.\<close>

definition strip_pdf_or_docx :: "jstring \<Rightarrow> jstring" where
  "strip_pdf_or_docx name =
     (if suffix (str ''.pdf'') (toLowerCase name) then strip_ext (str ''pdf'') name
      else strip_ext (str ''docx'') name)"

definition extractTextFromPDF :: "('d \<Rightarrow> jstring option) \<Rightarrow> 'd \<Rightarrow> jstring" where
  "extractTextFromPDF parse inputBuffer =
     (case parse inputBuffer of None \<Rightarrow> [] | Some t \<Rightarrow> cleanTextBasic t)"

text \<open>
  From the call of the checking service to the response; the second component is the
  log of the requests issued.
\<close>

definition report_bundle ::
  "('b, 'p, 'o) externals \<Rightarrow> jstring \<Rightarrow> jstring \<Rightarrow> ('p, 'o) entry \<Rightarrow> jstring \<Rightarrow> jstring
     \<Rightarrow> (failure + ('p, 'o) response) \<times> lt_request list" where
  "report_bundle env lang originalName cleanedBuffer cleanedName textForLT =
     (case runLanguageTool (configuration env) (service env) textForLT lang of
        (Inl e, sent) \<Rightarrow> (Inl e, sent)
      | (Inr matches', sent) \<Rightarrow>
          (let reportJSON = buildReportJSON cleanedName lang matches' (length textForLT);
               reportHTML = buildReportHTML reportJSON;
               zip0 = [cleanedName \<mapsto> cleanedBuffer,
                       str ''report.json'' \<mapsto> TextFile (json_stringify env reportJSON),
                       str ''report.html'' \<mapsto> TextFile reportHTML];
               zipName = strip_pdf_or_docx originalName @ str ''_docsafe_report.zip''
           in (Inr (Download (str ''application/zip'') zipName zip0), sent)))"

text \<open>The body of the \<^verbatim>\<open>try\<close> block: \<open>Inl\<close> is an exception on its way to \<^verbatim>\<open>catch\<close>.\<close>

definition clean_v2_try ::
  "('b, 'p, 'o) externals \<Rightarrow> 'b upload \<Rightarrow> jstring
     \<Rightarrow> (failure + ('p, 'o) response) \<times> lt_request list" where
  "clean_v2_try env f lang =
     (let originalName = originalname f;
          lower = toLowerCase originalName
      in if suffix (str ''.pdf'') lower then
           (case processPDFBasic (pdf_loader env) (system_clock env) (content f) of
              Inl e \<Rightarrow> (Inl e, [])
            | Inr cleaned \<Rightarrow>
                report_bundle env lang originalName (CleanedPdf cleaned)
                  (strip_ext (str ''pdf'') originalName @ str ''_cleaned.pdf'')
                  (extractTextFromPDF (pdf_parser env) cleaned))
         else if suffix (str ''.docx'') lower then
           (case processDOCXBasic (zip_loader env) (content f) of
              Inl e \<Rightarrow> (Inl e, [])
            | Inr cleaned \<Rightarrow>
                (case extractTextFromDOCX Some cleaned of
                   Inl e \<Rightarrow> (Inl e, [])
                 | Inr textForLT \<Rightarrow>
                     report_bundle env lang originalName (CleanedDocx cleaned)
                       (strip_ext (str ''docx'') originalName @ str ''_cleaned.docx'')
                       textForLT))
         else (Inr (Error 400 (str ''Only PDF or DOCX are supported'')), []))"

definition clean_v2 ::
  "('b, 'p, 'o) externals \<Rightarrow> 'b request \<Rightarrow> ('p, 'o) response \<times> lt_request list" where
  "clean_v2 env req =
     (case req_file req of
        None \<Rightarrow> (Error 400 (str ''Missing file''), [])
      | Some f \<Rightarrow>
          (let lang = (case lt_language req of
                         None \<Rightarrow> str ''auto''
                       | Some l \<Rightarrow> if l = [] then str ''auto'' else l)
           in case clean_v2_try env f lang of
                (Inl e, sent) \<Rightarrow> (Error 500 (str ''Processing failed (V2)''), sent)
              | (Inr res, sent) \<Rightarrow> (res, sent)))"

section \<open>Sample inputs\<close>

definition sample_config :: config where
  "sample_config = \<lparr>LT_URL = str ''https://api.languagetool.org/v2/check'', LT_KEY = None\<rparr>"

definition silent_service :: checker where
  "silent_service n r = Inr (Some [])"

definition failing_service :: checker where
  "failing_service n r = Inl RequestError"

definition sample_clock :: "nat \<Rightarrow> int" where
  "sample_clock n = 1762081200250 + int n"

definition sample_pdf :: "(jstring, jstring) pdf_document" where
  "sample_pdf =
     \<lparr>pages = [Page (str ''page 1''), Page (str ''page 2'')], title = Some (str ''Plan''),
      author = Some (str ''Jane''), subject = None, pdf_keywords = None,
      producer = Some (str ''Writer''), creator = None,
      creationDate = Some 1700000000000, modificationDate = Some 1700000000000,
      other_objects = [str ''XMP metadata'']\<rparr>"

definition empty_pdf :: "(jstring, jstring) pdf_document" where
  "empty_pdf =
     \<lparr>pages = [], title = Some (str ''Plan''), author = None, subject = None,
      pdf_keywords = None, producer = None, creator = None,
      creationDate = None, modificationDate = None, other_objects = []\<rparr>"

definition scenario_core :: jstring where
  "scenario_core = str ''<cp:coreProperties><dc:title>Plan</dc:title><dc:creator>Jane</dc:creator></cp:coreProperties>''"


definition fields_core :: jstring where
  "fields_core =
     str ''<cp:coreProperties><dc:creator>Jane</dc:creator>''
     @ str ''<cp:lastModifiedBy>Jane</cp:lastModifiedBy><dc:title>Plan</dc:title>''
     @ str ''<dc:subject>Budget</dc:subject><cp:keywords>secret</cp:keywords>''
     @ str ''</cp:coreProperties>''"

definition attribute_core :: jstring where
  \<open>attribute_core =
     str ''<cp:coreProperties><dc:creator>Jane</dc:creator>''
     @ str ''<cp:lastModifiedBy>Jane</cp:lastModifiedBy><dc:title>Plan</dc:title>''
     @ str ''<dc:subject>Budget</dc:subject><cp:keywords xml:lang="en">secret</cp:keywords>''
     @ str ''</cp:coreProperties>''\<close>

definition duplicate_core :: jstring where
  "duplicate_core =
     str ''<cp:coreProperties><dc:creator>Jane</dc:creator><dc:title>Plan</dc:title>''
     @ str ''<dc:creator>Joe</dc:creator></cp:coreProperties>''"

definition markup_match :: check_match where
  "markup_match =
     \<lparr>rule_id = Some (str ''<img src=x>''), message = Some (str ''a < b''),
      replacements = None, context_text = None\<rparr>"

definition sample_env :: "((jstring, jstring) pdf_document, jstring, jstring) externals" where
  "sample_env =
     \<lparr>zip_loader = (\<lambda>b. None), pdf_loader = Some,
      pdf_parser = (\<lambda>d. Some (str ''Bonjour  le monde'')),
      system_clock = sample_clock, json_stringify = (\<lambda>r. []),
      configuration = sample_config, service = failing_service\<rparr>"

definition sample_request :: "(jstring, jstring) pdf_document request" where
  "sample_request =
     \<lparr>req_file = Some \<lparr>originalname = str ''Plan.PDF'', content = sample_pdf\<rparr>,
      lt_language = None\<rparr>"

section \<open>Texts with single spaces\<close>

text \<open>
  After the first two replacements a text has single spaces only, and the later steps
  delete or insert nothing but spaces. Such a text is written as the list of its other
  code units, each with the flag that a space precedes it, and the flag that a space
  ends the text.
\<close>

definition sp :: "bool \<Rightarrow> jstring" where
  "sp g = (if g then [SP] else [])"

fun render :: "(bool \<times> cu) list \<Rightarrow> bool \<Rightarrow> jstring" where
  "render [] t = sp t"
| "render ((g, c) # xs) t = sp g @ c # render xs t"

definition plain :: "(bool \<times> cu) list \<Rightarrow> bool" where
  "plain xs \<longleftrightarrow> (\<forall>x \<in> set xs. snd x \<noteq> SP \<and> snd x \<noteq> TAB \<and> snd x \<noteq> ZWSP)"

text \<open>
  A step that decides each space from the code units on its two sides: \<open>F p g n\<close> is the
  new flag of a gap with the flag \<open>g\<close> between \<open>p\<close> and \<open>n\<close> (\<open>None\<close> at the ends of the text).
\<close>

fun tr :: "(cu option \<Rightarrow> bool \<Rightarrow> cu option \<Rightarrow> bool) \<Rightarrow> cu option \<Rightarrow> (bool \<times> cu) list
    \<Rightarrow> (bool \<times> cu) list" where
  "tr F p [] = []"
| "tr F p ((g, c) # xs) = (F p g (Some c), c) # tr F (Some c) xs"

definition lastc :: "cu option \<Rightarrow> (bool \<times> cu) list \<Rightarrow> cu option" where
  "lastc p xs = (if xs = [] then p else Some (snd (last xs)))"

definition punct :: "cu option \<Rightarrow> bool" where
  "punct p \<longleftrightarrow> (case p of None \<Rightarrow> False | Some c \<Rightarrow> is_punct c)"

definition F3 :: "cu option \<Rightarrow> bool \<Rightarrow> cu option \<Rightarrow> bool" where
  "F3 p g n \<longleftrightarrow> g \<and> p \<noteq> Some NL \<and> n \<noteq> Some NL"

definition F4 :: "cu option \<Rightarrow> bool \<Rightarrow> cu option \<Rightarrow> bool" where
  "F4 p g n \<longleftrightarrow> punct p \<or> (g \<and> \<not> punct n)"

definition F5 :: "cu option \<Rightarrow> bool \<Rightarrow> cu option \<Rightarrow> bool" where
  "F5 p g n \<longleftrightarrow> g \<and> n \<noteq> Some DOT"

definition nogap :: "(bool \<times> cu) list \<Rightarrow> bool \<Rightarrow> bool" where
  "nogap xs t \<longleftrightarrow> (case xs of [] \<Rightarrow> \<not> t | (g, c) # ys \<Rightarrow> \<not> g)"

definition wsx :: "bool \<times> cu \<Rightarrow> bool" where
  "wsx x \<longleftrightarrow> is_ws (snd x)"

definition core :: "(bool \<times> cu) list \<Rightarrow> (bool \<times> cu) list" where
  "core xs =
     (case dropWhile wsx xs of
        [] \<Rightarrow> []
      | (g, c) # ys \<Rightarrow> (False, c) # rev (dropWhile wsx (rev ys)))"

definition H :: "cu option \<Rightarrow> bool \<Rightarrow> cu option \<Rightarrow> bool" where
  "H p g n = F5 p (F4 p (F3 p g n) n) n"

section \<open>Termination of the scans for text runs\<close>

lemma find_sub_length:
  "find_sub pat s = Some (before, after) \<Longrightarrow> length before + length pat + length after = length s"
proof (induction s arbitrary: before)
  case Nil
  then show ?case by (auto split: if_splits)
next
  case (Cons c cs)
  show ?case
  proof (cases "prefix pat (c # cs)")
    case True
    then have "length pat \<le> length (c # cs)" by (rule prefix_length_le)
    with True Cons.prems show ?thesis by auto
  next
    case False
    with Cons.prems obtain b where "find_sub pat cs = Some (b, after)" "before = c # b"
      by auto
    with Cons.IH [of b] show ?thesis by simp
  qed
qed

lemma wt_match_shorter:
  assumes "wt_match s = Some (before, opening, inner, after)"
  shows "length after < length s"
proof -
  from assms obtain r1 attrs r2 where
    a: "find_sub (str ''<w:t'') s = Some (before, r1)" and
    b: "find_sub (str ''>'') r1 = Some (attrs, r2)" and
    c: "find_sub (str ''</w:t>'') r2 = Some (inner, after)"
    by (auto simp: wt_match_def split: option.splits)
  from find_sub_length [OF a] find_sub_length [OF b] find_sub_length [OF c]
  show ?thesis by (simp add: str_def)
qed

termination replace_wt
  by (relation "measure (\<lambda>(callback, s). length s)") (auto dest: wt_match_shorter)

termination wt_inners
  by (relation "measure length") (auto dest: wt_match_shorter)

declare replace_wt.simps [simp del]

declare wt_inners.simps [simp del]

section \<open>Facts about the grammar-check client\<close>

lemma trim_all_ws:
  assumes "\<forall>c \<in> set s. is_ws c"
  shows "trim s = []"
proof -
  from assms have d: "dropWhile is_ws s = []"
    by (induction s) auto
  show ?thesis unfolding trim_def d by simp
qed

lemma slice_set: "set (slice a b s) \<subseteq> set s"
  unfolding slice_def by (meson set_drop_subset set_take_subset subset_trans)

lemma slices_set: "c \<in> set (slices i s) \<Longrightarrow> set c \<subseteq> set s"
proof (induction i s rule: slices.induct)
  case (1 i fullText)
  then show ?case
    using slice_set [of i "i + limit" fullText]
    by (subst (asm) slices.simps) (auto split: if_splits)
qed

lemma lt_loop_blank:
  assumes "\<forall>c \<in> set chunks. trim c = []"
  shows "lt_loop cfg svc lang chunks sent acc = (Inr acc, sent)"
  using assms by (induction chunks) auto

text \<open>
  C8. A text that is empty or consists of whitespace only gives an empty sequence of
  matches and no request at all, in both clients; the report built from that sequence has
  \<open>totalIssues = 0\<close>.
\<close>

theorem blank_text_no_request:
  assumes "\<forall>c \<in> set txt. is_ws c"
  shows "runLanguageTool cfg svc txt lang = (Inr [], [])
    \<and> languageToolCheck svc txt lang = (Inr (Some []), [])
    \<and> (\<forall>ms. fst (runLanguageTool cfg svc txt lang) = Inr ms \<longrightarrow>
          totalIssues (summary (buildReportJSON fn lang ms (length txt))) = 0)"
proof -
  have "\<forall>c \<in> set (slices 0 txt). trim c = []"
    using assms slices_set trim_all_ws by blast
  then have run: "runLanguageTool cfg svc txt lang = (Inr [], [])"
    by (simp add: runLanguageTool_def lt_loop_blank)
  have "languageToolCheck svc txt lang = (Inr (Some []), [])"
    using assms by (simp add: languageToolCheck_def trim_all_ws)
  with run show ?thesis by (simp add: buildReportJSON_def)
qed

theorem blank_text_no_request_witness:
  "is_ws SP \<and> is_ws NL \<and> is_ws TAB
   \<and> runLanguageTool sample_config failing_service [SP, NL, TAB] (str ''fr'') = (Inr [], [])
   \<and> totalIssues (summary (buildReportJSON (str ''scan_cleaned.pdf'') (str ''fr'') []
        (length [SP, NL, TAB]))) = 0"
proof -
  have h: "\<forall>c \<in> set [SP, NL, TAB]. is_ws c"
    by (simp add: is_ws_def SP_def NL_def TAB_def)
  from blank_text_no_request [OF h, of sample_config failing_service "str ''fr''"
      "str ''scan_cleaned.pdf''"] h
  show ?thesis by auto
qed

section \<open>Chunks and requests\<close>

lemma slices_nonempty: "slices i s \<noteq> [] \<longleftrightarrow> i < length s"
  by (subst slices.simps) simp

lemma slices_concat: "concat (slices i s) = drop i s"
proof (induction i s rule: slices.induct)
  case (1 i fullText)
  show ?case
  proof (cases "i < length fullText")
    case True
    have "take limit (drop i fullText) @ drop (i + limit) fullText = drop i fullText"
      by (metis add.commute append_take_drop_id drop_drop)
    with True 1 show ?thesis
      by (subst slices.simps) (simp add: slice_def)
  next
    case False
    then show ?thesis
      by (subst slices.simps) simp
  qed
qed

lemma slices_lengths: "c \<in> set (slices i s) \<Longrightarrow> 0 < length c \<and> length c \<le> limit"
proof (induction i s rule: slices.induct)
  case (1 i fullText)
  from "1.prems" have "i < length fullText"
    using slices_nonempty [of i fullText] by auto
  with 1 show ?case
    by (subst (asm) (2) slices.simps) (auto simp: slice_def limit_def)
qed

lemma slices_full: "c \<in> set (butlast (slices i s)) \<Longrightarrow> length c = limit"
proof (induction i s rule: slices.induct)
  case (1 i fullText)
  from "1.prems" have lt: "i < length fullText"
    using slices_nonempty [of i fullText] by (cases "slices i fullText") auto
  then have unfold: "slices i fullText = slice i (i + limit) fullText # slices (i + limit) fullText"
    by (subst slices.simps) simp
  show ?case
  proof (cases "slices (i + limit) fullText = []")
    case True
    with "1.prems" unfold show ?thesis by simp
  next
    case False
    then have "i + limit < length fullText"
      by (simp add: slices_nonempty)
    then have "length (slice i (i + limit) fullText) = limit"
      by (simp add: slice_def)
    with "1.prems" unfold False "1.IH" [OF lt] show ?thesis
      by auto
  qed
qed

lemma slices_short:
  assumes "s \<noteq> []" and "length s \<le> limit"
  shows "slices 0 s = [s]"
proof -
  have "\<not> limit < length s"
    using assms(2) by simp
  then have "slices (0 + limit) s = []"
    using slices_nonempty [of limit s] by simp
  moreover have "slice 0 (0 + limit) s = s"
    using assms(2) by (simp add: slice_def)
  ultimately show ?thesis
    using assms(1) by (subst slices.simps) simp
qed

lemma slices_multiple:
  "length s = i + k * limit \<Longrightarrow>
   length (slices i s) = k \<and> (\<forall>c \<in> set (slices i s). length c = limit)"
proof (induction k arbitrary: i)
  case 0
  then have "slices i s = []"
    using slices_nonempty [of i s] by simp
  then show ?case by simp
next
  case (Suc k)
  have pos: "0 < limit" by (simp add: limit_def)
  from Suc.prems pos have lt: "i < length s" by simp
  then have unfold: "slices i s = slice i (i + limit) s # slices (i + limit) s"
    by (subst slices.simps) simp
  from Suc.prems have "length s = (i + limit) + k * limit" by simp
  from Suc.IH [OF this] have
    "length (slices (i + limit) s) = k" "\<forall>c \<in> set (slices (i + limit) s). length c = limit"
    by simp_all
  moreover from Suc.prems have "length (slice i (i + limit) s) = limit"
    by (simp add: slice_def)
  ultimately show ?case
    by (simp add: unfold)
qed

text \<open>
  The requests of a run are issued in the order of the chunks that are not blank; the
  run stops at a rejected one, and one that ends with a result has issued them all.
\<close>

lemma lt_loop_sent:
  "lt_loop cfg svc lang chunks sent acc = (res, sent') \<Longrightarrow>
   \<exists>new. sent' = sent @ new
     \<and> prefix new (map (payload cfg lang) (filter (\<lambda>c. trim c \<noteq> []) chunks))
     \<and> ((\<exists>ms. res = Inr ms) \<longrightarrow> new = map (payload cfg lang) (filter (\<lambda>c. trim c \<noteq> []) chunks))"
proof (induction chunks arbitrary: sent acc)
  case Nil
  then show ?case by auto
next
  case (Cons chunk chunks)
  show ?case
  proof (cases "trim chunk = []")
    case True
    with Cons.prems have "lt_loop cfg svc lang chunks sent acc = (res, sent')"
      by simp
    from Cons.IH [OF this] True show ?thesis by simp
  next
    case False
    show ?thesis
    proof (cases "svc (length sent) (payload cfg lang chunk)")
      case (Inl e)
      with False Cons.prems have "res = Inl e" "sent' = sent @ [payload cfg lang chunk]"
        by simp_all
      with False show ?thesis by simp
    next
      case (Inr resp)
      with False Cons.prems obtain acc' where
        "lt_loop cfg svc lang chunks (sent @ [payload cfg lang chunk]) acc' = (res, sent')"
        by auto
      from Cons.IH [OF this] obtain new where
        "sent' = (sent @ [payload cfg lang chunk]) @ new"
        "prefix new (map (payload cfg lang) (filter (\<lambda>c. trim c \<noteq> []) chunks))"
        "(\<exists>ms. res = Inr ms) \<longrightarrow> new = map (payload cfg lang) (filter (\<lambda>c. trim c \<noteq> []) chunks)"
        by blast
      with False show ?thesis
        by (intro exI [of _ "payload cfg lang chunk # new"]) simp
    qed
  qed
qed

lemma lt_loop_failure:
  "lt_loop cfg svc lang chunks sent acc = (res, sent') \<Longrightarrow>
   length sent \<le> i \<Longrightarrow> i < length sent' \<Longrightarrow> isl (svc i (sent' ! i)) \<Longrightarrow> isl res"
proof (induction chunks arbitrary: sent acc)
  case Nil
  then show ?case by simp
next
  case (Cons chunk chunks)
  show ?case
  proof (cases "trim chunk = []")
    case True
    with Cons.prems have "lt_loop cfg svc lang chunks sent acc = (res, sent')"
      by simp
    from Cons.IH [OF this Cons.prems(2,3,4)] show ?thesis .
  next
    case False
    show ?thesis
    proof (cases "svc (length sent) (payload cfg lang chunk)")
      case (Inl e)
      with False Cons.prems(1) have "res = Inl e"
        by simp
      then show ?thesis by simp
    next
      case (Inr resp)
      with False Cons.prems obtain acc' where
        run: "lt_loop cfg svc lang chunks (sent @ [payload cfg lang chunk]) acc' = (res, sent')"
        by auto
      from lt_loop_sent [OF run] obtain new where
        sent': "sent' = (sent @ [payload cfg lang chunk]) @ new"
        by blast
      have "i \<noteq> length sent"
      proof
        assume "i = length sent"
        with sent' have "sent' ! i = payload cfg lang chunk"
          by (simp add: nth_append)
        with Cons.prems(4) Inr \<open>i = length sent\<close> show False by simp
      qed
      with Cons.prems(2) have "length (sent @ [payload cfg lang chunk]) \<le> i"
        by simp
      from Cons.IH [OF run this Cons.prems(3,4)] show ?thesis .
    qed
  qed
qed

lemma toUSVString_length: "length (toUSVString s) = length s"
  by (induction s rule: toUSVString.induct) simp_all

lemma toUSVString_well_formed:
  "\<forall>u \<in> set s. \<not> is_lead u \<and> \<not> is_trail u \<Longrightarrow> toUSVString s = s"
  by (induction s rule: toUSVString.induct) simp_all

lemma lt_loop_log:
  "lt_loop cfg svc lang chunks sent acc = (res, sent') \<Longrightarrow>
   \<exists>new. sent' = sent @ new
     \<and> (\<forall>n. Suc n < length new \<longrightarrow> \<not> isl (svc (length sent + n) (new ! n)))
     \<and> (\<forall>e. res = Inl e \<longleftrightarrow>
           new \<noteq> [] \<and> svc (length sent + length new - 1) (last new) = Inl e)"
proof (induction chunks arbitrary: sent acc)
  case Nil
  then show ?case by auto
next
  case (Cons chunk chunks)
  show ?case
  proof (cases "trim chunk = []")
    case True
    with Cons.prems have "lt_loop cfg svc lang chunks sent acc = (res, sent')"
      by simp
    from Cons.IH [OF this] show ?thesis .
  next
    case False
    define p where "p = payload cfg lang chunk"
    show ?thesis
    proof (cases "svc (length sent) p")
      case (Inl e0)
      with False Cons.prems have "res = Inl e0" "sent' = sent @ [p]"
        by (simp_all add: p_def)
      with Inl show ?thesis
        by (intro exI [of _ "[p]"]) auto
    next
      case (Inr resp)
      with False Cons.prems obtain acc' where
        "lt_loop cfg svc lang chunks (sent @ [p]) acc' = (res, sent')"
        by (auto simp: p_def)
      from Cons.IH [OF this] obtain new where
        s: "sent' = (sent @ [p]) @ new" and
        a: "\<forall>n. Suc n < length new \<longrightarrow> \<not> isl (svc (length (sent @ [p]) + n) (new ! n))" and
        l: "\<forall>e. res = Inl e \<longleftrightarrow>
              new \<noteq> [] \<and> svc (length (sent @ [p]) + length new - 1) (last new) = Inl e"
        by blast
      have 1: "sent' = sent @ (p # new)"
        using s by simp
      have 2: "\<not> isl (svc (length sent + n) ((p # new) ! n))" if "Suc n < length (p # new)" for n
      proof (cases n)
        case 0
        with Inr show ?thesis by simp
      next
        case (Suc m)
        with that a show ?thesis by simp
      qed
      have 3: "res = Inl e \<longleftrightarrow>
          p # new \<noteq> [] \<and> svc (length sent + length (p # new) - 1) (last (p # new)) = Inl e"
        for e
      proof (cases "new = []")
        case True
        with l Inr show ?thesis by simp
      next
        case False
        with l show ?thesis by simp
      qed
      from 1 2 3 show ?thesis
        by blast
    qed
  qed
qed

lemma runLanguageTool_log:
  "(\<forall>n. Suc n < length (snd (runLanguageTool cfg svc txt lang)) \<longrightarrow>
      \<not> isl (svc n (snd (runLanguageTool cfg svc txt lang) ! n)))
   \<and> (\<forall>e. fst (runLanguageTool cfg svc txt lang) = Inl e \<longleftrightarrow>
         snd (runLanguageTool cfg svc txt lang) \<noteq> []
         \<and> svc (length (snd (runLanguageTool cfg svc txt lang)) - 1)
             (last (snd (runLanguageTool cfg svc txt lang))) = Inl e)"
proof -
  obtain res sent where run: "runLanguageTool cfg svc txt lang = (res, sent)"
    by (cases "runLanguageTool cfg svc txt lang")
  then have "lt_loop cfg svc lang (slices 0 txt) [] [] = (res, sent)"
    by (simp add: runLanguageTool_def)
  from lt_loop_log [OF this] show ?thesis
    unfolding run by simp
qed

lemma slices_two:
  "slices 0 (replicate 40000 c) = [replicate 20000 c, replicate 20000 c]"
  by (subst slices.simps, subst slices.simps, subst slices.simps) (simp add: slice_def limit_def)

lemma trim_replicate: "\<not> is_ws c \<Longrightarrow> trim (replicate n c) = replicate n c"
  by (simp add: trim_def)

text \<open>
  C4, as the code has it. The chunks of \<^verbatim>\<open>runLanguageTool\<close> are consecutive slices whose
  concatenation is the text, none empty or longer than 20000 code units and all but the
  last of exactly that length; a non-empty text shorter than the limit is one chunk, a
  text of \<open>k\<close> times the limit is \<open>k\<close> chunks of the limit. The requests issued are, in
  the order of the chunks, those for the chunks that are not blank, up to and including
  the first that the service rejects: every request of the log but the last was
  accepted, the run fails exactly when the last one was rejected, and a run that returns
  has sent one request for every chunk that is not blank. A request carries its chunk as
  a \<^verbatim>\<open>USVString\<close>: the same number of code units, and the chunk itself when it holds no
  surrogate. So a short text that is not blank is one request, and a text of \<open>k\<close> times
  the limit is \<open>k\<close> requests when no chunk is blank and no request is rejected.
  \<^verbatim>\<open>languageToolCheck\<close> sends a text that is not blank in one request, whatever its length.
\<close>

theorem chunking:
  "concat (slices 0 txt) = txt
   \<and> (\<forall>c \<in> set (slices 0 txt). 0 < length c \<and> length c \<le> limit)
   \<and> (\<forall>c \<in> set (butlast (slices 0 txt)). length c = limit)
   \<and> (txt \<noteq> [] \<and> length txt < limit \<longrightarrow> slices 0 txt = [txt])
   \<and> (length txt = k * limit \<longrightarrow>
        length (slices 0 txt) = k \<and> (\<forall>c \<in> set (slices 0 txt). length c = limit))
   \<and> prefix (snd (runLanguageTool cfg svc txt lang))
        (map (payload cfg lang) (filter (\<lambda>c. trim c \<noteq> []) (slices 0 txt)))
   \<and> (\<forall>n. Suc n < length (snd (runLanguageTool cfg svc txt lang)) \<longrightarrow>
        \<not> isl (svc n (snd (runLanguageTool cfg svc txt lang) ! n)))
   \<and> (\<forall>e. fst (runLanguageTool cfg svc txt lang) = Inl e \<longleftrightarrow>
        snd (runLanguageTool cfg svc txt lang) \<noteq> []
        \<and> svc (length (snd (runLanguageTool cfg svc txt lang)) - 1)
            (last (snd (runLanguageTool cfg svc txt lang))) = Inl e)
   \<and> ((\<exists>ms. fst (runLanguageTool cfg svc txt lang) = Inr ms) \<longrightarrow>
        snd (runLanguageTool cfg svc txt lang)
          = map (payload cfg lang) (filter (\<lambda>c. trim c \<noteq> []) (slices 0 txt)))
   \<and> req_text (payload cfg lang chunk) = toUSVString chunk
   \<and> length (toUSVString chunk) = length chunk
   \<and> ((\<forall>u \<in> set chunk. \<not> is_lead u \<and> \<not> is_trail u) \<longrightarrow> toUSVString chunk = chunk)
   \<and> (length txt < limit \<and> trim txt \<noteq> [] \<longrightarrow>
        snd (runLanguageTool cfg svc txt lang) = [payload cfg lang txt])
   \<and> (length txt = k * limit \<and> (\<forall>c \<in> set (slices 0 txt). trim c \<noteq> [])
        \<and> (\<exists>ms. fst (runLanguageTool cfg svc txt lang) = Inr ms) \<longrightarrow>
        length (snd (runLanguageTool cfg svc txt lang)) = k)
   \<and> (trim txt \<noteq> [] \<longrightarrow>
        snd (languageToolCheck svc txt lang)
          = [\<lparr>req_text = toUSVString txt, req_language = toUSVString lang,
               req_apiKey = None\<rparr>])"
proof -
  let ?reqs = "map (payload cfg lang) (filter (\<lambda>c. trim c \<noteq> []) (slices 0 txt))"
  obtain res sent where run: "runLanguageTool cfg svc txt lang = (res, sent)"
    by (cases "runLanguageTool cfg svc txt lang")
  then have "lt_loop cfg svc lang (slices 0 txt) [] [] = (res, sent)"
    by (simp add: runLanguageTool_def)
  from lt_loop_sent [OF this]
  have pre: "prefix sent ?reqs" and full: "(\<exists>ms. res = Inr ms) \<longrightarrow> sent = ?reqs"
    by auto
  from runLanguageTool_log [of cfg svc "txt" lang]
  have acc: "\<forall>n. Suc n < length sent \<longrightarrow> \<not> isl (svc n (sent ! n))"
    and rejected: "\<forall>e. res = Inl e \<longleftrightarrow> sent \<noteq> [] \<and> svc (length sent - 1) (last sent) = Inl e"
    unfolding run by simp_all
  have 1: "concat (slices 0 txt) = txt"
    by (simp add: slices_concat)
  have 2: "\<forall>c \<in> set (slices 0 txt). 0 < length c \<and> length c \<le> limit"
    using slices_lengths by blast
  have 3: "\<forall>c \<in> set (butlast (slices 0 txt)). length c = limit"
    using slices_full by blast
  have 4: "txt \<noteq> [] \<and> length txt < limit \<longrightarrow> slices 0 txt = [txt]"
    by (simp add: slices_short)
  have 5: "length txt = k * limit \<longrightarrow>
      length (slices 0 txt) = k \<and> (\<forall>c \<in> set (slices 0 txt). length c = limit)"
    using slices_multiple [of "txt" 0 k] by simp
  have 6: "length txt < limit \<and> trim txt \<noteq> [] \<longrightarrow> sent = [payload cfg lang txt]"
  proof
    assume a: "length txt < limit \<and> trim txt \<noteq> []"
    then have "txt \<noteq> []" by (auto simp: trim_def)
    with a have "slices 0 txt = [txt]" by (simp add: slices_short)
    with a run show "sent = [payload cfg lang txt]"
      by (auto simp: runLanguageTool_def split: sum.splits)
  qed
  have 7: "length txt = k * limit \<and> (\<forall>c \<in> set (slices 0 txt). trim c \<noteq> [])
      \<and> (\<exists>ms. res = Inr ms) \<longrightarrow> length sent = k"
    using full 5 by auto
  have 8: "trim txt \<noteq> [] \<longrightarrow>
      snd (languageToolCheck svc txt lang)
        = [\<lparr>req_text = toUSVString txt, req_language = toUSVString lang, req_apiKey = None\<rparr>]"
    by (auto simp: languageToolCheck_def trim_def)
  have 9: "req_text (payload cfg lang chunk) = toUSVString chunk"
    by (simp add: payload_def)
  have 10: "length (toUSVString chunk) = length chunk"
    by (rule toUSVString_length)
  have 11: "(\<forall>u \<in> set chunk. \<not> is_lead u \<and> \<not> is_trail u) \<longrightarrow> toUSVString chunk = chunk"
    using toUSVString_well_formed by blast
  from 1 2 3 4 5 pre acc rejected full 9 10 11 6 7 8 show ?thesis
    unfolding run fst_conv snd_conv by blast
qed

theorem chunking_witness:
  "length (replicate 40000 (0x61 :: cu)) = 2 * limit
   \<and> slices 0 (replicate 40000 (0x61 :: cu)) = [replicate 20000 0x61, replicate 20000 0x61]
   \<and> trim (replicate 20000 (0x61 :: cu)) \<noteq> []
   \<and> fst (runLanguageTool sample_config silent_service (replicate 40000 0x61) (str ''fr''))
       = Inr []
   \<and> length (snd (runLanguageTool sample_config silent_service (replicate 40000 0x61)
        (str ''fr''))) = 2
   \<and> runLanguageTool sample_config failing_service (str ''Bonjour'') (str ''fr'')
       = (Inl RequestError, [payload sample_config (str ''fr'') (str ''Bonjour'')])
   \<and> req_text (payload sample_config (str ''fr'') (str ''Bonjour'')) = str ''Bonjour''
   \<and> req_text (payload sample_config (str ''fr'') [0x61, 0xD83D]) = [0x61, 0xFFFD]"
proof -
  let ?a = "replicate 40000 (0x61 :: cu)"
  have len: "length ?a = 2 * limit"
    by (simp add: limit_def)
  have letter: "\<not> is_ws (0x61 :: cu)"
    by (simp add: is_ws_def)
  then have nonblank: "trim (replicate 20000 (0x61 :: cu)) \<noteq> []"
    by (simp add: trim_replicate)
  then have chunks: "\<forall>c \<in> set (slices 0 ?a). trim c \<noteq> []"
    by (simp add: slices_two)
  have res: "fst (runLanguageTool sample_config silent_service ?a (str ''fr'')) = Inr []"
    using nonblank by (simp add: runLanguageTool_def slices_two silent_service_def)
  have short: "length (str ''Bonjour'') < limit \<and> trim (str ''Bonjour'') \<noteq> []"
    by (simp add: limit_def trim_def str_def is_ws_def)
  from chunking [of ?a 2 sample_config silent_service "str ''fr''" "[]"] len chunks res
  have two: "length (snd (runLanguageTool sample_config silent_service ?a (str ''fr''))) = 2"
    by simp
  from chunking [of "str ''Bonjour''" 0 sample_config failing_service "str ''fr''" "[]"] short
  have log: "snd (runLanguageTool sample_config failing_service (str ''Bonjour'') (str ''fr''))
      = [payload sample_config (str ''fr'') (str ''Bonjour'')]"
    and "\<forall>e. fst (runLanguageTool sample_config failing_service (str ''Bonjour'') (str ''fr''))
          = Inl e \<longleftrightarrow>
        snd (runLanguageTool sample_config failing_service (str ''Bonjour'') (str ''fr'')) \<noteq> []
        \<and> failing_service
            (length (snd (runLanguageTool sample_config failing_service (str ''Bonjour'')
               (str ''fr''))) - 1)
            (last (snd (runLanguageTool sample_config failing_service (str ''Bonjour'')
               (str ''fr'')))) = Inl e"
    by blast+
  then have "fst (runLanguageTool sample_config failing_service (str ''Bonjour'') (str ''fr''))
      = Inl RequestError"
    by (simp add: failing_service_def)
  with log have "runLanguageTool sample_config failing_service (str ''Bonjour'') (str ''fr'')
      = (Inl RequestError, [payload sample_config (str ''fr'') (str ''Bonjour'')])"
    by (simp add: prod_eq_iff)
  moreover have "\<forall>u \<in> set (str ''Bonjour''). \<not> is_lead u \<and> \<not> is_trail u"
    by (simp add: str_def is_lead_def is_trail_def)
  with chunking [of "[]" 0 sample_config failing_service "str ''fr''" "str ''Bonjour''"]
  have "req_text (payload sample_config (str ''fr'') (str ''Bonjour'')) = str ''Bonjour''"
    by simp
  moreover from chunking [of "[]" 0 sample_config failing_service "str ''fr''" "[0x61, 0xD83D]"]
  have "req_text (payload sample_config (str ''fr'') [0x61, 0xD83D]) = [0x61, 0xFFFD]"
    by (simp add: is_lead_def is_trail_def)
  ultimately show ?thesis
    using len nonblank res two by (simp add: slices_two)
qed

text \<open>
  The claim C4 as it is written fails on a text that is not empty and is blank: a single
  space is shorter than the limit and produces no request.
\<close>

theorem blank_text_not_one_request:
  "[SP] \<noteq> [] \<and> length [SP] < limit
   \<and> runLanguageTool sample_config silent_service [SP] (str ''fr'') = (Inr [], [])"
proof -
  have "slices 0 [SP] = [[SP]]"
    by (rule slices_short) (simp_all add: limit_def)
  moreover have "trim [SP] = []"
    by (simp add: trim_def is_ws_def SP_def)
  ultimately show ?thesis
    by (simp add: runLanguageTool_def limit_def)
qed

section \<open>Facts about the report builder\<close>

lemma report_total: "totalIssues (summary (buildReportJSON fn lang ms n)) = length ms"
  by (simp add: buildReportJSON_def)

lemma report_matches: "matches (buildReportJSON fn lang ms n) = ms"
  by (simp add: buildReportJSON_def)

text \<open>
  For a key that \<^verbatim>\<open>Object.prototype\<close> does not know, the loop counts: started on an
  object where the key is unset or holds a positive number, it adds the number of
  matches with that key.
\<close>

lemma count_rules_ordinary:
  assumes "k \<noteq> str ''__proto__''" and "map_of object_prototype_functions k = None"
    and "b k = None \<or> (\<exists>n>0. b k = Some (JNum n))"
  shows "count_rules b ms k =
    (let c = length (filter (\<lambda>m. rule_key m = k) ms) + (case b k of Some (JNum n) \<Rightarrow> n | _ \<Rightarrow> 0)
     in if c = 0 then None else Some (JNum c))"
  using assms(3)
proof (induction ms arbitrary: b)
  case Nil
  then show ?case by (auto simp: Let_def)
next
  case (Cons m ms)
  show ?case
  proof (cases "rule_key m = k")
    case True
    have step: "bump b (rule_key m) k =
        Some (JNum (Suc (case b k of Some (JNum n) \<Rightarrow> n | _ \<Rightarrow> 0)))"
      using True assms(1,2) Cons.prems by (auto simp: bump_def)
    then have "bump b (rule_key m) k = None \<or> (\<exists>n>0. bump b (rule_key m) k = Some (JNum n))"
      by simp
    with Cons.IH [of "bump b (rule_key m)"] step True show ?thesis
      by (simp add: Let_def)
  next
    case False
    then have same: "bump b (rule_key m) k = b k"
      by (simp add: bump_def)
    with Cons.prems
    have "bump b (rule_key m) k = None \<or> (\<exists>n>0. bump b (rule_key m) k = Some (JNum n))"
      by simp
    with Cons.IH [of "bump b (rule_key m)"] same False show ?thesis
      by (simp add: Let_def)
  qed
qed

lemma byRule_ordinary:
  assumes "k \<noteq> str ''__proto__''" and "map_of object_prototype_functions k = None"
  shows "byRule (summary (buildReportJSON fn lang ms n)) k =
    (if length (filter (\<lambda>m. rule_key m = k) ms) = 0 then None
     else Some (JNum (length (filter (\<lambda>m. rule_key m = k) ms))))"
  using count_rules_ordinary [OF assms, of Map.empty ms]
  by (simp add: buildReportJSON_def Let_def)

text \<open>
  C6. \<open>totalIssues\<close> is the length of the match sequence, for every sequence. The count per
  rule is not right for every sequence: for a match whose rule identifier is
  \<^verbatim>\<open>constructor\<close> the read of \<^verbatim>\<open>summary.byRule[key]\<close> finds the inherited function
  \<^verbatim>\<open>Object\<close>, and the entry stored is that function's text followed by \<^verbatim>\<open>1\<close>, not the
  number 1.
\<close>

theorem byRule_constructor:
  "totalIssues (summary (buildReportJSON fn lang
      [\<lparr>rule_id = Some (str ''constructor''), message = None, replacements = None,
        context_text = None\<rparr>] n)) = 1
   \<and> byRule (summary (buildReportJSON fn lang
      [\<lparr>rule_id = Some (str ''constructor''), message = None, replacements = None,
        context_text = None\<rparr>] n)) (str ''constructor'')
     = Some (JStr (str ''function Object() { [native code] }1''))"
  by (simp add: buildReportJSON_def rule_key_def bump_def object_prototype_functions_def
      native_source_def str_def)

section \<open>Facts about the DOCX sanitizers\<close>

lemma find_sub_eq: "find_sub pat s = Some (before, after) \<Longrightarrow> s = before @ pat @ after"
proof (induction s arbitrary: before)
  case Nil
  then show ?case by (auto split: if_splits)
next
  case (Cons c cs)
  show ?case
  proof (cases "prefix pat (c # cs)")
    case True
    with Cons.prems have b: "before = []" and a: "after = drop (length pat) (c # cs)"
      by simp_all
    from True obtain zs where z: "c # cs = pat @ zs"
      by (auto simp: prefix_def)
    then have "drop (length pat) (c # cs) = zs"
      by simp
    with a b z show ?thesis by simp
  next
    case False
    with Cons.prems obtain b where "find_sub pat cs = Some (b, after)" "before = c # b"
      by auto
    with Cons.IH [of b] show ?thesis by simp
  qed
qed

lemma find_sub_None_iff: "find_sub pat s = None \<longleftrightarrow> \<not> sublist pat s"
  by (induction s) (auto simp: sublist_Cons_right)

text \<open>
  An occurrence of \<open>pat\<close> that begins before position \<open>length before\<close> lies within
  \<open>before @ butlast pat\<close>. Without one, the scan stops exactly behind \<open>before\<close>.
\<close>

lemma find_sub_first:
  assumes "pat \<noteq> []" and "\<not> sublist pat (before @ butlast pat)"
  shows "find_sub pat (before @ pat @ after) = Some (before, after)"
  using assms(2)
proof (induction before)
  case Nil
  from assms(1) obtain p ps where "pat = p # ps" by (cases pat) auto
  then show ?case by simp
next
  case (Cons c before)
  have no_prefix: "\<not> prefix pat (c # before @ pat @ after)"
  proof
    assume p: "prefix pat (c # before @ pat @ after)"
    define front where "front = c # before @ butlast pat"
    have "c # before @ pat @ after = front @ (last pat # after)"
      using assms(1) by (simp add: front_def)
    with p have "prefix pat (front @ (last pat # after))"
      by simp
    then consider "prefix pat front" | us where "pat = front @ us"
      by (auto simp: prefix_append)
    then have "prefix pat front"
    proof cases
      case 1
      then show ?thesis .
    next
      case 2
      moreover have "length pat \<le> length front"
        by (simp add: front_def)
      ultimately have "us = []"
        by (metis add_le_same_cancel1 le_zero_eq length_0_conv length_append)
      with 2 show ?thesis by simp
    qed
    then have "sublist pat front"
      by (rule prefix_imp_sublist)
    with Cons.prems show False by (simp add: front_def)
  qed
  from Cons.prems have "\<not> sublist pat (before @ butlast pat)"
    by (simp add: sublist_Cons_right)
  from Cons.IH [OF this] no_prefix show ?case by simp
qed

lemma replace_first_between_no_open:
  "\<not> sublist opn s \<Longrightarrow> replace_first_between opn cls repl s = s"
  by (simp add: replace_first_between_def find_sub_None_iff [symmetric])

lemma paths_distinct:
  "core_path \<noteq> custom_path" "core_path \<noteq> doc_path" "custom_path \<noteq> doc_path"
  "app_path \<noteq> doc_path" "core_path \<noteq> app_path" "custom_path \<noteq> app_path"
  by (simp_all add: core_path_def custom_path_def doc_path_def app_path_def str_def)

lemma processDOCXBasic_entries:
  assumes "loadAsync buf = Some z"
  shows "\<exists>z'. processDOCXBasic loadAsync buf = Inr z'
    \<and> z' core_path = map_option blank_core (z core_path)
    \<and> z' custom_path = None
    \<and> z' doc_path = map_option (replace_wt clean_run) (z doc_path)
    \<and> (\<forall>p. p \<noteq> core_path \<and> p \<noteq> custom_path \<and> p \<noteq> doc_path \<longrightarrow> z' p = z p)"
  using assms paths_distinct
  by (auto simp: processDOCXBasic_def Let_def split: option.splits)

lemma zip_remove_file: "z p \<noteq> None \<Longrightarrow> zip_remove p z = z(p := None)"
  by (simp add: zip_remove_def)

lemma not_customXml:
  "\<not> prefix (str ''customXml'' @ str ''/'') core_path"
  "\<not> prefix (str ''customXml'' @ str ''/'') custom_path"
  "\<not> prefix (str ''customXml'' @ str ''/'') doc_path"
  "\<not> prefix (str ''customXml'' @ str ''/'') app_path"
  "core_path \<noteq> str ''customXml''" "custom_path \<noteq> str ''customXml''"
  "doc_path \<noteq> str ''customXml''" "app_path \<noteq> str ''customXml''"
  by (simp_all add: core_path_def custom_path_def doc_path_def app_path_def str_def)





section \<open>The replacements on entries made of plain elements\<close>

lemma prefix_tag:
  "gt \<notin> set a \<Longrightarrow> gt \<notin> set b \<Longrightarrow> prefix (a @ [gt]) (b @ gt # r) \<longleftrightarrow> a = b"
proof (induction a arbitrary: b)
  case Nil
  then show ?case by (cases b) auto
next
  case (Cons x a)
  then show ?case by (cases b) auto
qed

text \<open>
  A pattern that begins with a code unit it does not hold again cannot lie across the
  start of a text that begins with that code unit, and cannot begin inside a text
  without it.
\<close>

lemma sublist_split:
  assumes "lt \<notin> set body" and "q = [] \<or> hd q = lt"
  shows "sublist (lt # body) (p @ q) \<longleftrightarrow> sublist (lt # body) p \<or> sublist (lt # body) q"
proof (induction p)
  case Nil
  then show ?case by simp
next
  case (Cons c p)
  have "prefix (lt # body) (c # p)" if pre: "prefix (lt # body) ((c # p) @ q)"
  proof -
    from pre consider "prefix (lt # body) (c # p)"
      | us where "lt # body = (c # p) @ us" "prefix us q"
      by (auto simp: prefix_append)
    then show ?thesis
    proof cases
      case 1
      then show ?thesis .
    next
      case 2
      show ?thesis
      proof (cases us)
        case Nil
        with 2 show ?thesis by simp
      next
        case (Cons u us')
        with 2(2) have "q \<noteq> []" "hd q = u"
          by (auto simp: prefix_def)
        with assms(2) have "u = lt" by auto
        with 2(1) Cons have "lt \<in> set body" by auto
        with assms(1) show ?thesis by simp
      qed
    qed
  qed
  moreover have "prefix (lt # body) ((c # p) @ q)" if "prefix (lt # body) (c # p)"
    using that by (rule prefix_prefix)
  ultimately have "prefix (lt # body) (c # p @ q) \<longleftrightarrow> prefix (lt # body) (c # p)"
    by auto
  with Cons show ?case
    by (auto simp: sublist_Cons_right)
qed

lemma sublist_skip:
  "lt \<notin> set w \<Longrightarrow> sublist (lt # body) (w @ r) \<longleftrightarrow> sublist (lt # body) r"
  by (induction w) (auto simp: sublist_Cons_right)

lemma not_sublist_butlast: "pat \<noteq> [] \<Longrightarrow> \<not> sublist pat (butlast pat)"
proof
  assume "pat \<noteq> []" and "sublist pat (butlast pat)"
  then obtain ps ss where "butlast pat = ps @ pat @ ss"
    by (auto simp: sublist_def)
  then have "length (butlast pat) = length (ps @ pat @ ss)"
    by (rule arg_cong)
  then have "length pat - 1 = length ps + length pat + length ss"
    by simp
  moreover from \<open>pat \<noteq> []\<close> have "0 < length pat"
    by simp
  ultimately show False by arith
qed

lemma core_fields_ok:
  assumes "name \<in> set core_fields"
  shows "name \<noteq> []" "0x3C \<notin> set name" "0x3E \<notin> set name" "hd name \<noteq> 0x2F"
  using assms by (auto simp: core_fields_def str_def)

lemma tag_forms:
  "open_tag name = 0x3C # name @ [0x3E]" "close_tag name = 0x3C # 0x2F # name @ [0x3E]"
  by (simp_all add: open_tag_def close_tag_def str_def)

lemma elements_append: "elements (es1 @ es2) = elements es1 @ elements es2"
  by (induction es1) auto

lemma elements_start: "elements es = [] \<or> hd (elements es) = 0x3C"
  by (cases es) (auto simp: element_def tag_forms)

text \<open>An open_tag tag does not occur in a run of plain elements of other names.\<close>

lemma no_opening_in_elements:
  assumes name: "name \<in> set core_fields"
    and es: "plain_elements es" and other: "name \<notin> fst ` set es"
    and q: "q = [] \<or> hd q = 0x3C" "\<not> sublist (open_tag name) q"
  shows "\<not> sublist (open_tag name) (elements es @ q)"
  using es other
proof (induction es)
  case Nil
  with q show ?case by simp
next
  case (Cons e es)
  obtain n inner behind where e: "e = (n, inner, behind)"
    by (cases e)
  from Cons.prems e have n: "n \<in> set core_fields" "n \<noteq> name"
    and inner: "\<not> sublist (open_tag name) inner" and behind: "\<not> sublist (open_tag name) behind"
    and rest: "plain_elements es" "name \<notin> fst ` set es"
    using name by (auto simp: plain_elements_def plain_text_def)
  let ?pat = "0x3C # name @ [0x3E]"
  have lt: "0x3C \<notin> set (name @ [0x3E])"
    using core_fields_ok [OF name] by simp
  define r1 where "r1 = elements es @ q"
  have r1: "\<not> sublist ?pat r1" "r1 = [] \<or> hd r1 = 0x3C"
    using Cons.IH [OF rest] q(1) elements_start [of es]
    by (auto simp: r1_def tag_forms hd_append)
  define r2 where "r2 = behind @ r1"
  have r2: "\<not> sublist ?pat r2"
    using sublist_split [OF lt r1(2), of behind] behind r1(1)
    by (simp add: r2_def tag_forms)
  define r3 where "r3 = close_tag n @ r2"
  have r3: "\<not> sublist ?pat r3" "hd r3 = 0x3C"
  proof -
    have "\<not> prefix ?pat (0x3C # 0x2F # n @ [0x3E] @ r2)"
      using core_fields_ok [OF name] by (cases name) auto
    moreover have "\<not> sublist ?pat ((0x2F # n @ [0x3E]) @ r2)"
      using sublist_skip [of "0x3C" "0x2F # n @ [0x3E]" "name @ [0x3E]" r2] r2
        core_fields_ok [OF n(1)]
      by simp
    ultimately show "\<not> sublist ?pat r3"
      by (simp add: r3_def tag_forms sublist_Cons_right)
    show "hd r3 = 0x3C"
      by (simp add: r3_def tag_forms)
  qed
  define r4 where "r4 = inner @ r3"
  have r4: "\<not> sublist ?pat r4"
    using sublist_split [OF lt, of r3 inner] inner r3
    by (simp add: r4_def tag_forms)
  have "\<not> prefix ?pat (0x3C # n @ 0x3E # r4)"
    using prefix_tag [of "0x3E" name n r4] core_fields_ok [OF name] core_fields_ok [OF n(1)] n(2)
    by simp
  moreover have "\<not> sublist ?pat ((n @ [0x3E]) @ r4)"
    using sublist_skip [of "0x3C" "n @ [0x3E]" "name @ [0x3E]" r4] r4 core_fields_ok [OF n(1)]
    by simp
  ultimately have "\<not> sublist ?pat (open_tag n @ r4)"
    by (simp add: tag_forms sublist_Cons_right)
  then show ?case
    by (simp add: e element_def r4_def r3_def r2_def r1_def tag_forms)
qed

lemma blank_first_absent: "name \<notin> fst ` set es \<Longrightarrow> blank_first name es = es"
  by (induction es) auto

lemma blank_first_split:
  "name \<notin> fst ` set es1 \<Longrightarrow>
   blank_first name (es1 @ (name, inner, behind) # es2) = es1 @ (name, [], behind) # es2"
  by (induction es1) auto

lemma plain_text_Nil: "plain_text []"
  using core_fields_ok(1) by (auto simp: plain_text_def open_tag_def str_def)

lemma blank_first_plain: "plain_elements es \<Longrightarrow> plain_elements (blank_first name es)"
proof (induction es)
  case Nil
  then show ?case by simp
next
  case (Cons e es)
  obtain n inner behind where e: "e = (n, inner, behind)"
    by (cases e)
  from Cons.prems have "plain_elements es"
    by (simp add: plain_elements_def)
  with Cons.IH Cons.prems show ?case
    using plain_text_Nil by (auto simp: e plain_elements_def close_tag_def str_def)
qed

text \<open>
  One replacement on an entry made of plain elements: the text of the first element of
  its name goes, everything else stays.
\<close>

lemma replace_in_elements:
  assumes name: "name \<in> set core_fields" and s0: "plain_text s0" and es: "plain_elements es"
  shows "replace_first_between (open_tag name) (close_tag name) (element name []) (s0 @ elements es)
    = s0 @ elements (blank_first name es)"
proof (cases "name \<in> fst ` set es")
  case False
  have lt: "0x3C \<notin> set (name @ [0x3E])"
    using core_fields_ok [OF name] by simp
  have "\<not> sublist (open_tag name) (elements es @ [])"
    using name es False by (rule no_opening_in_elements) (simp_all add: tag_forms)
  moreover have "\<not> sublist (open_tag name) s0"
    using s0 name by (simp add: plain_text_def)
  ultimately have "\<not> sublist (open_tag name) (s0 @ elements es)"
    using sublist_split [OF lt elements_start, of s0 es] by (simp add: tag_forms)
  with False show ?thesis
    by (simp add: replace_first_between_no_open blank_first_absent)
next
  case True
  then have "name \<in> set (map fst es)" by simp
  from split_list_first [OF this] obtain ns1 ns2 where
    ns: "map fst es = ns1 @ name # ns2" "name \<notin> set ns1"
    by blast
  define es1 where "es1 = take (length ns1) es"
  define es2 where "es2 = drop (Suc (length ns1)) es"
  have len: "length ns1 < length es"
    using arg_cong [OF ns(1), of length] by simp
  then have split: "es = es1 @ es ! length ns1 # es2"
    by (simp add: es1_def es2_def id_take_nth_drop)
  have "map fst es1 = take (length ns1) (map fst es)"
    by (simp add: es1_def take_map)
  with ns have tags1: "map fst es1 = ns1"
    by simp
  have "fst (es ! length ns1) = map fst es ! length ns1"
    using len by simp
  with ns(1) have "fst (es ! length ns1) = name"
    by (simp add: nth_append)
  then obtain inner behind where mid: "es ! length ns1 = (name, inner, behind)"
    by (cases "es ! length ns1") auto
  from split mid have shape: "es = es1 @ (name, inner, behind) # es2"
    by simp
  have first: "name \<notin> fst ` set es1"
    using tags1 ns(2) by (metis list.set_map)
  have plain1: "plain_elements es1" and inner: "\<not> sublist (close_tag name) inner"
    using es by (auto simp: shape plain_elements_def)
  let ?opn = "open_tag name" and ?cls = "close_tag name"
  have lt: "0x3C \<notin> set (name @ [0x3E])" and lt': "0x3C \<notin> set (0x2F # name @ [0x3E])"
    using core_fields_ok [OF name] by simp_all
  have opn_ne: "?opn \<noteq> []" and cls_ne: "?cls \<noteq> []"
    by (simp_all add: tag_forms)
  have q: "butlast ?opn = [] \<or> hd (butlast ?opn) = 0x3C" "\<not> sublist ?opn (butlast ?opn)"
    using not_sublist_butlast [OF opn_ne] by (simp_all add: tag_forms butlast_append)
  have "\<not> sublist ?opn (elements es1 @ butlast ?opn)"
    using name plain1 first q by (rule no_opening_in_elements)
  moreover have "\<not> sublist ?opn s0"
    using s0 name by (simp add: plain_text_def)
  moreover have "elements es1 @ butlast ?opn = [] \<or> hd (elements es1 @ butlast ?opn) = 0x3C"
    using elements_start [of es1] by (auto simp: tag_forms butlast_append hd_append)
  ultimately have "\<not> sublist ?opn ((s0 @ elements es1) @ butlast ?opn)"
    using sublist_split [OF lt, of "elements es1 @ butlast ?opn" s0] by (simp add: tag_forms)
  with opn_ne have 1: "find_sub ?opn ((s0 @ elements es1) @ ?opn @ (inner @ ?cls @ behind @ elements es2))
      = Some (s0 @ elements es1, inner @ ?cls @ behind @ elements es2)"
    by (rule find_sub_first)
  have "\<not> sublist ?cls (inner @ butlast ?cls)"
    using sublist_split [OF lt', of "butlast ?cls" inner] inner not_sublist_butlast [OF cls_ne]
    by (simp add: tag_forms butlast_append)
  with cls_ne have 2: "find_sub ?cls (inner @ ?cls @ (behind @ elements es2))
      = Some (inner, behind @ elements es2)"
    by (rule find_sub_first)
  have whole: "s0 @ elements es
      = (s0 @ elements es1) @ ?opn @ (inner @ ?cls @ behind @ elements es2)"
    by (simp add: shape elements_append element_def)
  have "replace_first_between ?opn ?cls (element name []) (s0 @ elements es)
      = (s0 @ elements es1) @ element name [] @ behind @ elements es2"
    unfolding whole replace_first_between_def 1 using 2 by simp
  also have "\<dots> = s0 @ elements (es1 @ (name, [], behind) # es2)"
    by (simp add: elements_append)
  also have "es1 @ (name, [], behind) # es2 = blank_first name es"
    unfolding shape using first by (simp add: blank_first_split)
  finally show ?thesis .
qed

lemma blank_core_steps:
  "blank_core coreXml =
     foldl (\<lambda>s name. replace_first_between (open_tag name) (close_tag name) (element name []) s)
       coreXml core_fields"
  by (simp add: blank_core_def core_fields_def element_def open_tag_def close_tag_def str_def)

lemma blank_core_elements:
  assumes "plain_text s0" and "plain_elements es"
  shows "blank_core (s0 @ elements es) = s0 @ elements (foldl (\<lambda>es name. blank_first name es) es core_fields)"
proof -
  have "foldl (\<lambda>s name. replace_first_between (open_tag name) (close_tag name) (element name []) s)
        (s0 @ elements es) names
      = s0 @ elements (foldl (\<lambda>es name. blank_first name es) es names)"
    if "set names \<subseteq> set core_fields" for names
    using that assms(2)
  proof (induction names arbitrary: es)
    case Nil
    then show ?case by simp
  next
    case (Cons name names)
    then have "name \<in> set core_fields" by simp
    from replace_in_elements [OF this assms(1) Cons.prems(2)]
      Cons.IH [of "blank_first name es"] Cons.prems blank_first_plain [of es name]
    show ?case by simp
  qed
  then show ?thesis
    by (simp add: blank_core_steps)
qed

lemma blank_first_nth:
  "i < length es \<Longrightarrow>
   blank_first name es ! i
     = (fst (es ! i),
        (if fst (es ! i) = name \<and> name \<notin> fst ` set (take i es) then [] else fst (snd (es ! i))),
        snd (snd (es ! i)))"
proof (induction es arbitrary: i)
  case Nil
  then show ?case by simp
next
  case (Cons e es)
  obtain n inner behind where e: "e = (n, inner, behind)"
    by (cases e)
  show ?case
  proof (cases i)
    case 0
    then show ?thesis by (simp add: e)
  next
    case (Suc j)
    with Cons.prems have "j < length es" by simp
    from Cons.IH [OF this] Suc show ?thesis
      by (auto simp: e)
  qed
qed

lemma blank_first_length: "length (blank_first name es) = length es"
  by (induction es) auto

lemma blank_first_names: "map fst (blank_first name es) = map fst es"
  by (induction es) auto

lemma names_before: "map fst es' = map fst es \<Longrightarrow> fst ` set (take i es') = fst ` set (take i es)"
  by (metis list.set_map take_map)

lemma blank_firsts_nth:
  "i < length es \<Longrightarrow>
   length (foldl (\<lambda>es name. blank_first name es) es names) = length es
   \<and> map fst (foldl (\<lambda>es name. blank_first name es) es names) = map fst es
   \<and> foldl (\<lambda>es name. blank_first name es) es names ! i
     = (fst (es ! i),
        (if fst (es ! i) \<in> set names \<and> fst (es ! i) \<notin> fst ` set (take i es) then []
         else fst (snd (es ! i))),
        snd (snd (es ! i)))"
proof (induction names arbitrary: es)
  case Nil
  then show ?case by simp
next
  case (Cons name names)
  have i: "i < length (blank_first name es)"
    using Cons.prems by (simp add: blank_first_length)
  from Cons.IH [OF i] show ?case
    using Cons.prems names_before [OF blank_first_names, of i name es]
    by (auto simp: blank_first_length blank_first_names blank_first_nth)
qed

text \<open>
  The five replacements on an entry made of plain elements: an element keeps its text
  exactly when an element of the same name comes before it; names, order and the texts
  between the elements stay.
\<close>

lemma blank_core_plain_elements:
  assumes "plain_text s0" and "plain_elements es"
  shows "blank_core (s0 @ elements es)
    = s0 @ elements (map (\<lambda>i. (fst (es ! i),
          (if fst (es ! i) \<in> fst ` set (take i es) then fst (snd (es ! i)) else []),
          snd (snd (es ! i)))) [0..<length es])"
proof -
  let ?es' = "foldl (\<lambda>es name. blank_first name es) es core_fields"
  have "?es' = map (\<lambda>i. (fst (es ! i),
          (if fst (es ! i) \<in> fst ` set (take i es) then fst (snd (es ! i)) else []),
          snd (snd (es ! i)))) [0..<length es]"
  proof (rule nth_equalityI)
    show "length ?es' = length (map (\<lambda>i. (fst (es ! i),
          (if fst (es ! i) \<in> fst ` set (take i es) then fst (snd (es ! i)) else []),
          snd (snd (es ! i)))) [0..<length es])"
    proof (cases es)
      case Nil
      then show ?thesis by (simp add: core_fields_def)
    next
      case (Cons e es0)
      then have "0 < length es" by simp
      from blank_firsts_nth [OF this, of core_fields] show ?thesis by simp
    qed
  next
    fix i
    assume "i < length ?es'"
    then have i: "i < length es"
      using blank_firsts_nth [of 0 es core_fields] by (cases es) (auto simp: core_fields_def)
    then have "es ! i \<in> set es" by simp
    with assms(2) have "fst (es ! i) \<in> set core_fields"
      by (auto simp: plain_elements_def)
    with blank_firsts_nth [OF i, of core_fields] i
    show "?es' ! i = map (\<lambda>i. (fst (es ! i),
          (if fst (es ! i) \<in> fst ` set (take i es) then fst (snd (es ! i)) else []),
          snd (snd (es ! i)))) [0..<length es] ! i"
      by simp
  qed
  with blank_core_elements [OF assms] show ?thesis
    by simp
qed

lemma blank_core_distinct_elements:
  assumes "plain_text s0" and "plain_elements es" and "distinct (map fst es)"
  shows "blank_core (s0 @ elements es)
    = s0 @ elements (map (\<lambda>(name, inner, behind). (name, [], behind)) es)"
proof -
  have first: "fst (es ! i) \<notin> fst ` set (take i es)" if "i < length es" for i
  proof
    assume "fst (es ! i) \<in> fst ` set (take i es)"
    then obtain e where "e \<in> set (take i es)" "fst e = fst (es ! i)"
      by auto
    then obtain j where "j < i" "take i es ! j = e" "j < length es"
      using that by (auto simp: in_set_conv_nth)
    with \<open>fst e = fst (es ! i)\<close> that have "map fst es ! j = map fst es ! i" "j \<noteq> i"
      by auto
    with assms(3) that \<open>j < length es\<close> show False
      by (simp add: distinct_conv_nth)
  qed
  have "map (\<lambda>i. (fst (es ! i),
          (if fst (es ! i) \<in> fst ` set (take i es) then fst (snd (es ! i)) else []),
          snd (snd (es ! i)))) [0..<length es]
      = map (\<lambda>(name, inner, behind). (name, [], behind)) es"
    by (rule nth_equalityI) (auto simp: first split: prod.splits)
  with blank_core_plain_elements [OF assms(1,2)] show ?thesis
    by simp
qed

lemma subseq_replace_first_between:
  "subseq (replace_first_between opn cls (opn @ cls) s) s"
proof (cases "find_sub opn s")
  case None
  then show ?thesis by (simp add: replace_first_between_def)
next
  case (Some a)
  obtain before rest where a: "a = (before, rest)" by (cases a)
  show ?thesis
  proof (cases "find_sub cls rest")
    case None
    with Some a show ?thesis by (simp add: replace_first_between_def)
  next
    case (Some b)
    obtain inner after where b: "b = (inner, after)" by (cases b)
    from find_sub_eq \<open>find_sub opn s = Some a\<close> a have s: "s = before @ opn @ rest"
      by blast
    from find_sub_eq Some b have rest: "rest = inner @ cls @ after"
      by blast
    have "subseq (cls @ after) (inner @ cls @ after)"
      by (simp add: list_emb_append2)
    then have "subseq (before @ opn @ cls @ after) (before @ opn @ inner @ cls @ after)"
      by (simp add: list_emb_append_mono)
    with \<open>find_sub opn s = Some a\<close> a Some b s rest show ?thesis
      by (simp add: replace_first_between_def)
  qed
qed

lemma subseq_blank_core: "subseq (blank_core coreXml) coreXml"
proof -
  have step: "subseq (replace_first_between (open_tag name) (close_tag name) (element name []) s) s"
    for name s
    using subseq_replace_first_between [of "open_tag name" "close_tag name" s]
    by (simp add: element_def)
  have "subseq (foldl (\<lambda>s name. replace_first_between (open_tag name) (close_tag name)
      (element name []) s) s names) s" for names s
  proof (induction names arbitrary: s)
    case Nil
    then show ?case by simp
  next
    case (Cons name names)
    let ?s = "replace_first_between (open_tag name) (close_tag name) (element name []) s"
    have "subseq (foldl (\<lambda>s name. replace_first_between (open_tag name) (close_tag name)
        (element name []) s) ?s names) ?s"
      by (rule Cons.IH)
    moreover have "subseq ?s s"
      by (rule step)
    ultimately have "subseq (foldl (\<lambda>s name. replace_first_between (open_tag name)
        (close_tag name) (element name []) s) ?s names) s"
      by (rule subseq_order.order_trans)
    then show ?case
      by simp
  qed
  then show ?thesis
    by (simp add: blank_core_steps)
qed

lemma replace_first_between_no_close:
  assumes "opn \<noteq> []" and "\<not> sublist opn (before @ butlast opn)" and "\<not> sublist cls rest"
  shows "replace_first_between opn cls repl (before @ opn @ rest) = before @ opn @ rest"
proof -
  have "find_sub opn (before @ opn @ rest) = Some (before, rest)"
    using assms(1,2) by (rule find_sub_first)
  moreover have "find_sub cls rest = None"
    using assms(3) by (simp add: find_sub_None_iff)
  ultimately show ?thesis
    by (simp add: replace_first_between_def)
qed

lemma replace_first_between_match:
  assumes "opn \<noteq> []" and "cls \<noteq> []"
    and "\<not> sublist opn (before @ butlast opn)"
    and "\<not> sublist cls (inner @ butlast cls)"
  shows "replace_first_between opn cls repl (before @ opn @ inner @ cls @ after)
      = before @ repl @ after"
proof -
  have "find_sub opn (before @ opn @ (inner @ cls @ after)) = Some (before, inner @ cls @ after)"
    using assms(1,3) by (rule find_sub_first)
  moreover have "find_sub cls (inner @ cls @ after) = Some (inner, after)"
    using assms(2,4) by (rule find_sub_first)
  ultimately show ?thesis
    by (simp add: replace_first_between_def)
qed

lemma processDOCXBasic_plain_fields:
  assumes "loadAsync buf = Some z" and "z core_path = Some (s0 @ elements es)"
    and "plain_text s0" and "plain_elements es" and "distinct (map fst es)"
  shows "\<exists>z'. processDOCXBasic loadAsync buf = Inr z'
    \<and> z' core_path = Some (s0 @ elements (map (\<lambda>(name, inner, behind). (name, [], behind)) es))
    \<and> z' custom_path = None"
  using processDOCXBasic_entries [of loadAsync buf z] assms(1,2)
    blank_core_distinct_elements [OF assms(3-5)]
  by auto

text \<open>
  C1 fails on a keywords element that carries an attribute. The five patterns spell the
  opening tags without attributes (the pattern for the text runs, \<^verbatim>\<open><w:t[^>]*>\<close>, allows
  them), so in the entry below the first four elements are blanked and the keywords
  keep their text. The same entry with \<^verbatim>\<open><cp:keywords>\<close> comes out with all five elements
  present and empty and without \<^verbatim>\<open>docProps/custom.xml\<close>, as the claim says, and so does
  the entry of the scenario. \<^verbatim>\<open>cleanDOCX\<close> deletes the entries instead.
\<close>

theorem keywords_attribute_kept:
  \<open>processDOCXBasic Some [core_path \<mapsto> attribute_core, custom_path \<mapsto> str ''<Properties/>'']
     = Inr [core_path \<mapsto>
         str ''<cp:coreProperties><dc:creator></dc:creator>''
         @ str ''<cp:lastModifiedBy></cp:lastModifiedBy><dc:title></dc:title>''
         @ str ''<dc:subject></dc:subject><cp:keywords xml:lang="en">secret</cp:keywords>''
         @ str ''</cp:coreProperties>'']
   \<and> processDOCXBasic Some [core_path \<mapsto> fields_core, custom_path \<mapsto> str ''<Properties/>'']
     = Inr [core_path \<mapsto>
         str ''<cp:coreProperties><dc:creator></dc:creator>''
         @ str ''<cp:lastModifiedBy></cp:lastModifiedBy><dc:title></dc:title>''
         @ str ''<dc:subject></dc:subject><cp:keywords></cp:keywords>''
         @ str ''</cp:coreProperties>'']
   \<and> processDOCXBasic Some [core_path \<mapsto> scenario_core]
     = Inr [core_path \<mapsto>
         str ''<cp:coreProperties><dc:title></dc:title><dc:creator></dc:creator></cp:coreProperties>'']
   \<and> cleanDOCX Some [core_path \<mapsto> fields_core, custom_path \<mapsto> str ''<Properties/>'']
     = Inr Map.empty\<close>
proof -
  have a: \<open>blank_core attribute_core
      = str ''<cp:coreProperties><dc:creator></dc:creator>''
        @ str ''<cp:lastModifiedBy></cp:lastModifiedBy><dc:title></dc:title>''
        @ str ''<dc:subject></dc:subject><cp:keywords xml:lang="en">secret</cp:keywords>''
        @ str ''</cp:coreProperties>''\<close>
    by (simp add: attribute_core_def blank_core_def replace_first_between_def str_def)
  have b: "blank_core fields_core
      = str ''<cp:coreProperties><dc:creator></dc:creator>''
        @ str ''<cp:lastModifiedBy></cp:lastModifiedBy><dc:title></dc:title>''
        @ str ''<dc:subject></dc:subject><cp:keywords></cp:keywords>''
        @ str ''</cp:coreProperties>''"
    by (simp add: fields_core_def blank_core_def replace_first_between_def str_def)
  have c: "blank_core scenario_core
      = str ''<cp:coreProperties><dc:title></dc:title><dc:creator></dc:creator></cp:coreProperties>''"
    by (simp add: scenario_core_def blank_core_def replace_first_between_def str_def)
  have paths: "core_path \<noteq> custom_path" "core_path \<noteq> doc_path" "custom_path \<noteq> doc_path"
    "custom_path \<noteq> core_path" "core_path \<noteq> app_path" "app_path \<noteq> custom_path"
    "custom_path \<noteq> str ''customXml''" "core_path \<noteq> str ''customXml''"
    using paths_distinct not_customXml by auto
  have 1: \<open>processDOCXBasic Some [core_path \<mapsto> attribute_core, custom_path \<mapsto> str ''<Properties/>'']
      = Inr [core_path \<mapsto> blank_core attribute_core]\<close>
    using paths by (auto simp: processDOCXBasic_def Let_def fun_eq_iff)
  have 2: "processDOCXBasic Some [core_path \<mapsto> fields_core, custom_path \<mapsto> str ''<Properties/>'']
      = Inr [core_path \<mapsto> blank_core fields_core]"
    using paths by (auto simp: processDOCXBasic_def Let_def fun_eq_iff)
  have 3: "processDOCXBasic Some [core_path \<mapsto> scenario_core]
      = Inr [core_path \<mapsto> blank_core scenario_core]"
    using paths by (auto simp: processDOCXBasic_def Let_def fun_eq_iff)
  have 4: "cleanDOCX Some [core_path \<mapsto> fields_core, custom_path \<mapsto> str ''<Properties/>'']
      = Inr Map.empty"
    using paths not_customXml
    by (auto simp: cleanDOCX_def Let_def zip_remove_def fun_eq_iff)
  from 1 2 3 4 show ?thesis
    unfolding a b c by simp
qed

text \<open>
  C10, as the code has it. \<^verbatim>\<open>processDOCXBasic\<close> applies the five replacements in the order
  of \<open>core_fields\<close>, each to the result of the one before and each without the \<^verbatim>\<open>g\<close>
  flag. One replacement changes the leftmost match of its pattern and nothing else:
  when the text is \<open>before @ opn @ inner @ cls @ after\<close>, \<open>opn\<close> does not begin earlier and
  \<open>cls\<close> does not begin earlier behind it, the result is \<open>before @ repl @ after\<close>; a text
  without \<open>opn\<close>, and a text without \<open>cls\<close> behind its leftmost \<open>opn\<close>, is unchanged.
  Whatever the entry, the five replacements only remove text: the result is a
  subsequence of the entry. For an entry made of plain elements the result is the entry
  with the text of the first element of every name removed: an element keeps its text
  exactly when an element of the same name comes before it, and the names, the order and
  the texts between the elements are as they were. Entries are compared as the strings
  that \<^verbatim>\<open>async("string")\<close> decodes and \<^verbatim>\<open>zip.file(name, text)\<close> stores.
\<close>

theorem first_occurrences_only:
  assumes "loadAsync buf = Some z" and "z core_path = Some (s0 @ elements es)"
    and "plain_text s0" and "plain_elements es"
  shows "(\<exists>z'. processDOCXBasic loadAsync buf = Inr z'
        \<and> z' core_path
          = Some (s0 @ elements (map (\<lambda>i. (fst (es ! i),
              (if fst (es ! i) \<in> fst ` set (take i es) then fst (snd (es ! i)) else []),
              snd (snd (es ! i)))) [0..<length es])))
    \<and> blank_core coreXml
        = foldl (\<lambda>s name.
            replace_first_between (open_tag name) (close_tag name) (element name []) s)
          coreXml core_fields
    \<and> subseq (blank_core coreXml) coreXml
    \<and> (opn \<noteq> [] \<and> cls \<noteq> [] \<and> \<not> sublist opn (before @ butlast opn)
          \<and> \<not> sublist cls (inner @ butlast cls) \<longrightarrow>
        replace_first_between opn cls repl (before @ opn @ inner @ cls @ after)
          = before @ repl @ after)
    \<and> (\<not> sublist opn s \<longrightarrow> replace_first_between opn cls repl s = s)
    \<and> (opn \<noteq> [] \<and> \<not> sublist opn (before @ butlast opn) \<and> \<not> sublist cls rest \<longrightarrow>
        replace_first_between opn cls repl (before @ opn @ rest) = before @ opn @ rest)"
proof -
  from processDOCXBasic_entries [of loadAsync buf z] assms(1,2)
    blank_core_plain_elements [OF assms(3,4)]
  have "\<exists>z'. processDOCXBasic loadAsync buf = Inr z'
        \<and> z' core_path
          = Some (s0 @ elements (map (\<lambda>i. (fst (es ! i),
              (if fst (es ! i) \<in> fst ` set (take i es) then fst (snd (es ! i)) else []),
              snd (snd (es ! i)))) [0..<length es]))"
    by auto
  moreover note blank_core_steps [of coreXml] subseq_blank_core [of coreXml]
  moreover have "opn \<noteq> [] \<and> cls \<noteq> [] \<and> \<not> sublist opn (before @ butlast opn)
          \<and> \<not> sublist cls (inner @ butlast cls) \<longrightarrow>
        replace_first_between opn cls repl (before @ opn @ inner @ cls @ after)
          = before @ repl @ after"
    using replace_first_between_match [of opn cls before inner repl after] by blast
  moreover have "\<not> sublist opn s \<longrightarrow> replace_first_between opn cls repl s = s"
    using replace_first_between_no_open [of opn s cls repl] by blast
  moreover have "opn \<noteq> [] \<and> \<not> sublist opn (before @ butlast opn) \<and> \<not> sublist cls rest \<longrightarrow>
        replace_first_between opn cls repl (before @ opn @ rest) = before @ opn @ rest"
    using replace_first_between_no_close [of opn before cls rest repl] by blast
  ultimately show ?thesis
    by blast
qed

theorem first_occurrences_only_witness:
  "(\<exists>z'. processDOCXBasic Some [core_path \<mapsto> duplicate_core] = Inr z'
      \<and> z' core_path
        = Some (str ''<cp:coreProperties><dc:creator></dc:creator><dc:title></dc:title>''
            @ str ''<dc:creator>Joe</dc:creator></cp:coreProperties>''))
   \<and> replace_first_between (str ''<dc:creator>'') (str ''</dc:creator>'')
        (str ''<dc:creator></dc:creator>'')
        (str ''<p><dc:creator>Jane</dc:creator><dc:creator>Joe</dc:creator></p>'')
     = str ''<p><dc:creator></dc:creator><dc:creator>Joe</dc:creator></p>''
   \<and> replace_first_between (str ''<dc:creator>'') (str ''</dc:creator>'')
        (str ''<dc:creator></dc:creator>'') (str ''<p>Jane</dc:creator></p>'')
     = str ''<p>Jane</dc:creator></p>''
   \<and> replace_first_between (str ''<dc:creator>'') (str ''</dc:creator>'')
        (str ''<dc:creator></dc:creator>'') (str ''<p><dc:creator>Jane</p>'')
     = str ''<p><dc:creator>Jane</p>''"
proof -
  let ?es = "[(str ''dc:creator'', str ''Jane'', []), (str ''dc:title'', str ''Plan'', []),
      (str ''dc:creator'', str ''Joe'', str ''</cp:coreProperties>'')]"
  have shape: "duplicate_core = str ''<cp:coreProperties>'' @ elements ?es"
    by (simp add: duplicate_core_def element_def open_tag_def close_tag_def str_def)
  then have entry: "[core_path \<mapsto> duplicate_core] core_path
      = Some (str ''<cp:coreProperties>'' @ elements ?es)"
    by simp
  have s0: "plain_text (str ''<cp:coreProperties>'')"
    by (simp add: plain_text_def core_fields_def open_tag_def str_def sublist_Cons_right)
  have es: "plain_elements ?es"
    by (simp add: plain_elements_def plain_text_def core_fields_def open_tag_def close_tag_def
        str_def sublist_Cons_right)
  have opn: "str ''<dc:creator>'' \<noteq> []" and cls: "str ''</dc:creator>'' \<noteq> []"
    by (simp_all add: str_def)
  have before: "\<not> sublist (str ''<dc:creator>'') (str ''<p>'' @ butlast (str ''<dc:creator>''))"
    by (simp add: str_def sublist_Cons_right)
  have inner: "\<not> sublist (str ''</dc:creator>'') (str ''Jane'' @ butlast (str ''</dc:creator>''))"
    by (simp add: str_def sublist_Cons_right)
  have absent: "\<not> sublist (str ''<dc:creator>'') (str ''<p>Jane</dc:creator></p>'')"
    by (simp add: str_def sublist_Cons_right)
  have unclosed: "\<not> sublist (str ''</dc:creator>'') (str ''Jane</p>'')"
    by (simp add: str_def sublist_Cons_right)
  have result: "str ''<cp:coreProperties>'' @ elements (map (\<lambda>i. (fst (?es ! i),
        (if fst (?es ! i) \<in> fst ` set (take i ?es) then fst (snd (?es ! i)) else []),
        snd (snd (?es ! i)))) [0..<length ?es])
      = str ''<cp:coreProperties><dc:creator></dc:creator><dc:title></dc:title>''
          @ str ''<dc:creator>Joe</dc:creator></cp:coreProperties>''"
    by (simp add: element_def open_tag_def close_tag_def str_def upt_rec)
  from first_occurrences_only
    [where loadAsync = Some and buf = "[core_path \<mapsto> duplicate_core]"
       and z = "[core_path \<mapsto> duplicate_core]" and ?s0.0 = "str ''<cp:coreProperties>''"
       and es = ?es and coreXml = duplicate_core
       and opn = "str ''<dc:creator>''" and cls = "str ''</dc:creator>''"
       and repl = "str ''<dc:creator></dc:creator>''"
       and before = "str ''<p>''" and inner = "str ''Jane''"
       and after = "str ''<dc:creator>Joe</dc:creator></p>''"
       and s = "str ''<p>Jane</dc:creator></p>''" and rest = "str ''Jane</p>''",
     OF refl entry s0 es]
  have "(\<exists>z'. processDOCXBasic Some [core_path \<mapsto> duplicate_core] = Inr z'
      \<and> z' core_path
        = Some (str ''<cp:coreProperties><dc:creator></dc:creator><dc:title></dc:title>''
            @ str ''<dc:creator>Joe</dc:creator></cp:coreProperties>''))"
    and "replace_first_between (str ''<dc:creator>'') (str ''</dc:creator>'')
        (str ''<dc:creator></dc:creator>'')
        (str ''<p>'' @ str ''<dc:creator>'' @ str ''Jane'' @ str ''</dc:creator>''
           @ str ''<dc:creator>Joe</dc:creator></p>'')
      = str ''<p>'' @ str ''<dc:creator></dc:creator>'' @ str ''<dc:creator>Joe</dc:creator></p>''"
    and "replace_first_between (str ''<dc:creator>'') (str ''</dc:creator>'')
        (str ''<dc:creator></dc:creator>'') (str ''<p>Jane</dc:creator></p>'')
      = str ''<p>Jane</dc:creator></p>''"
    and "replace_first_between (str ''<dc:creator>'') (str ''</dc:creator>'')
        (str ''<dc:creator></dc:creator>'') (str ''<p>'' @ str ''<dc:creator>'' @ str ''Jane</p>'')
      = str ''<p>'' @ str ''<dc:creator>'' @ str ''Jane</p>''"
    unfolding result using opn cls before inner absent unclosed by blast+
  then show ?thesis
    by (simp add: str_def)
qed

text \<open>
  The claim C10 as it is written fails where a later occurrence lies inside the match of
  another of the five patterns: the title replacement removes both creators.
\<close>

theorem later_creator_removed:
  "blank_core (str ''<dc:title><dc:creator>a</dc:creator><dc:creator>b</dc:creator></dc:title>'')
     = str ''<dc:title></dc:title>''"
  by (simp add: blank_core_def replace_first_between_def str_def)

section \<open>Facts about the PDF sanitizers\<close>

lemma copy_all_pages: "copyPages d (getPageIndices d) = pages d"
  by (simp add: copyPages_def getPageIndices_def map_nth)

lemma fold_addPage_pages: "pages (fold addPage ps d) = pages d @ ps"
  by (induction ps arbitrary: d) (simp_all add: addPage_def)

lemma fold_addPage_other: "other_objects (fold addPage ps d) = other_objects d"
  by (induction ps arbitrary: d) (simp_all add: addPage_def)

lemma fold_addPage_more:
  "fold addPage ps d = d\<lparr>pages := pages d @ ps\<rparr>"
  by (induction ps arbitrary: d) (simp_all add: addPage_def)

lemmas pdf_setters =
  setTitle_def setAuthor_def setSubject_def setKeywords_def setProducer_def setCreator_def
  setCreationDate_def setModificationDate_def PDFString_fromDate_def

lemma updateInfoDict_frame:
  "pages (updateInfoDict now d) = pages d"
  "other_objects (updateInfoDict now d) = other_objects d"
  by (simp_all add: updateInfoDict_def Let_def pdf_setters)

lemma save_fields:
  "pages (save d) = (if pages d = [] then [BlankPage] else pages d)"
  "other_objects (save d) = other_objects d"
  "title (save d) = title d" "author (save d) = author d" "subject (save d) = subject d"
  "pdf_keywords (save d) = pdf_keywords d" "producer (save d) = producer d"
  "creator (save d) = creator d" "creationDate (save d) = creationDate d"
  "modificationDate (save d) = modificationDate d"
  by (simp_all add: save_def addPage_def)

text \<open>
  C2, as the code has it. For a PDF that parses, \<^verbatim>\<open>processPDFBasic\<close> writes the loaded
  document itself: the same pages in the same order and the same other objects (no new
  container), the five text fields and the keywords empty, both dates the epoch.
  \<^verbatim>\<open>cleanPDF\<close> writes a new document that holds the pages, copied by index in their
  order, and nothing else of the old one, with the same six fields blanked; its two
  dates are the readings of the system time at the two calls of \<^verbatim>\<open>new Date()\<close>, cut to
  whole seconds. Either sanitizer writes a document without pages with one blank page
  added.
\<close>

theorem pdf_sanitizers:
  assumes "load buf = Some d"
  shows "(\<exists>d'. processPDFBasic load clock buf = Inr d'
      \<and> pages d' = (if pages d = [] then [BlankPage] else pages d)
      \<and> other_objects d' = other_objects d
      \<and> title d' = Some [] \<and> author d' = Some [] \<and> subject d' = Some []
      \<and> producer d' = Some [] \<and> creator d' = Some [] \<and> pdf_keywords d' = Some []
      \<and> creationDate d' = Some 0 \<and> modificationDate d' = Some 0)
    \<and> (\<exists>d'. cleanPDF load clock buf = Inr d'
      \<and> pages d' = (if pages d = [] then [BlankPage] else pages d)
      \<and> other_objects d' = []
      \<and> title d' = Some [] \<and> author d' = Some [] \<and> subject d' = Some []
      \<and> producer d' = Some [] \<and> creator d' = Some [] \<and> pdf_keywords d' = Some []
      \<and> creationDate d' = Some (clock 2 - clock 2 mod 1000)
      \<and> modificationDate d' = Some (clock 3 - clock 3 mod 1000))"
proof -
  have "\<exists>d'. processPDFBasic load clock buf = Inr d'
      \<and> pages d' = (if pages d = [] then [BlankPage] else pages d)
      \<and> other_objects d' = other_objects d
      \<and> title d' = Some [] \<and> author d' = Some [] \<and> subject d' = Some []
      \<and> producer d' = Some [] \<and> creator d' = Some [] \<and> pdf_keywords d' = Some []
      \<and> creationDate d' = Some 0 \<and> modificationDate d' = Some 0"
    using assms
    by (simp add: processPDFBasic_def Let_def save_fields pdf_setters updateInfoDict_frame)
  moreover have "\<exists>d'. cleanPDF load clock buf = Inr d'
      \<and> pages d' = (if pages d = [] then [BlankPage] else pages d)
      \<and> other_objects d' = []
      \<and> title d' = Some [] \<and> author d' = Some [] \<and> subject d' = Some []
      \<and> producer d' = Some [] \<and> creator d' = Some [] \<and> pdf_keywords d' = Some []
      \<and> creationDate d' = Some (clock 2 - clock 2 mod 1000)
      \<and> modificationDate d' = Some (clock 3 - clock 3 mod 1000)"
    using assms
    by (simp add: cleanPDF_def Let_def save_fields pdf_setters updateInfoDict_frame
        copy_all_pages fold_addPage_more PDFDocument_create_def updateInfoDict_def)
  ultimately show ?thesis
    by blast
qed

theorem pdf_sanitizers_witness:
  "(\<exists>d'. processPDFBasic Some sample_clock sample_pdf = Inr d'
      \<and> pages d' = [Page (str ''page 1''), Page (str ''page 2'')]
      \<and> other_objects d' = [str ''XMP metadata''] \<and> author d' = Some []
      \<and> creationDate d' = Some 0 \<and> modificationDate d' = Some 0)
   \<and> (\<exists>d'. cleanPDF Some sample_clock sample_pdf = Inr d'
      \<and> pages d' = [Page (str ''page 1''), Page (str ''page 2'')]
      \<and> other_objects d' = [] \<and> author d' = Some []
      \<and> creationDate d' = Some 1762081200000 \<and> modificationDate d' = Some 1762081200000)
   \<and> (\<exists>d'. processPDFBasic Some sample_clock empty_pdf = Inr d' \<and> pages d' = [BlankPage])
   \<and> (\<exists>d'. cleanPDF Some sample_clock empty_pdf = Inr d' \<and> pages d' = [BlankPage])"
proof -
  have p: "pages sample_pdf = [Page (str ''page 1''), Page (str ''page 2'')]"
    "other_objects sample_pdf = [str ''XMP metadata'']" "pages empty_pdf = []"
    by (simp_all add: sample_pdf_def empty_pdf_def)
  have c: "sample_clock 2 - sample_clock 2 mod 1000 = 1762081200000"
    "sample_clock 3 - sample_clock 3 mod 1000 = 1762081200000"
    by (simp_all add: sample_clock_def)
  from pdf_sanitizers [of Some sample_pdf sample_pdf sample_clock, OF refl]
    pdf_sanitizers [of Some empty_pdf empty_pdf sample_clock, OF refl]
  show ?thesis
    unfolding p c by auto
qed

text \<open>
  The claim C2 as it is written fails on both sanitizers: \<^verbatim>\<open>cleanPDF\<close> stamps the time of
  processing, and \<^verbatim>\<open>processPDFBasic\<close> keeps the old container with its other objects.
\<close>

theorem pdf_epoch_or_new_container:
  "map_sum id creationDate (cleanPDF Some sample_clock sample_pdf) = Inr (Some 1762081200000)
   \<and> map_sum id modificationDate (cleanPDF Some sample_clock sample_pdf)
       = Inr (Some 1762081200000)
   \<and> map_sum id other_objects (processPDFBasic Some sample_clock sample_pdf)
       = Inr [str ''XMP metadata'']"
  by (simp add: cleanPDF_def processPDFBasic_def sample_clock_def sample_pdf_def Let_def
      updateInfoDict_def save_def addPage_def pdf_setters copyPages_def getPageIndices_def
      PDFDocument_create_def)

section \<open>Facts about the rendering\<close>

lemma str_append: "str (a @ b) = str a @ str b"
  by (simp add: str_def)

lemma escape_lt_clean: "0x3C \<notin> set (escape_lt s)"
  by (induction s) (auto simp: escape_lt_def str_def)

lemma no_matches_placeholder:
  "matches r = [] \<Longrightarrow>
   buildReportHTML r =
     html_head @ fileName (summary r) @ html_language @ language_code (summary r)
     @ html_length @ dec (textLength (summary r)) @ html_total @ dec (totalIssues (summary r))
     @ html_table @ no_suggestion_row @ html_foot"
  by (simp add: buildReportHTML_def enumerate_eq_zip)

lemma html_row_rule:
  "\<exists>a b. html_row m idx = a @ (case rule_id m of None \<Rightarrow> [] | Some i \<Rightarrow> i) @ b"
  unfolding html_row_def Let_def by (metis append.assoc)

lemma html_fileName: "\<exists>b. buildReportHTML r = html_head @ fileName (summary r) @ b"
  unfolding buildReportHTML_def Let_def by blast

text \<open>
  C7. The message, the suggestions and the context of a match go through the replacement
  of \<^verbatim>\<open><\<close>; the rule identifier and the file name (and the language) are put into the
  page as they are. The rendering of a report whose file name is \<^verbatim>\<open><b>_cleaned.pdf\<close> and
  whose only match has the rule identifier \<^verbatim>\<open><img src=x>\<close> contains both tags, while the
  \<^verbatim>\<open><\<close> of the message is escaped.
\<close>

theorem html_markup_not_escaped:
  "sublist (str ''<b>_cleaned.pdf'')
     (buildReportHTML (buildReportJSON (str ''<b>_cleaned.pdf'') (str ''auto'') [markup_match] 5))
   \<and> sublist (str ''<img src=x>'')
     (buildReportHTML (buildReportJSON (str ''<b>_cleaned.pdf'') (str ''auto'') [markup_match] 5))
   \<and> sublist (str ''a &lt; b'')
     (buildReportHTML (buildReportJSON (str ''<b>_cleaned.pdf'') (str ''auto'') [markup_match] 5))"
proof -
  let ?r = "buildReportJSON (str ''<b>_cleaned.pdf'') (str ''auto'') [markup_match] 5"
  have row: "html_row markup_match 0 =
      row_index @ dec 1 @ row_rule @ str ''<img src=x>'' @ row_message @ str ''a &lt; b''
      @ row_suggestions @ str ''-'' @ row_context @ row_end"
    by (simp add: html_row_def markup_match_def escape_lt_def str_def)
  have nonempty: "row_index \<noteq> []"
    by (simp add: row_index_def str_def)
  have html: "buildReportHTML ?r =
      html_head @ str ''<b>_cleaned.pdf'' @ html_language @ str ''auto'' @ html_length @ dec 5
      @ html_total @ dec 1 @ html_table @ html_row markup_match 0 @ html_foot"
    using nonempty
    by (simp add: buildReportHTML_def buildReportJSON_def enumerate_eq_zip row)
  have 1: "sublist (str ''<b>_cleaned.pdf'') (buildReportHTML ?r)"
    unfolding html by (rule sublist_appendI)
  have "buildReportHTML ?r =
      (html_head @ str ''<b>_cleaned.pdf'' @ html_language @ str ''auto'' @ html_length @ dec 5
        @ html_total @ dec 1 @ html_table @ row_index @ dec 1 @ row_rule)
      @ str ''<img src=x>''
      @ (row_message @ str ''a &lt; b'' @ row_suggestions @ str ''-'' @ row_context @ row_end
        @ html_foot)"
    unfolding html row by simp
  then have 2: "sublist (str ''<img src=x>'') (buildReportHTML ?r)"
    by (metis sublist_appendI)
  have "buildReportHTML ?r =
      (html_head @ str ''<b>_cleaned.pdf'' @ html_language @ str ''auto'' @ html_length @ dec 5
        @ html_total @ dec 1 @ html_table @ row_index @ dec 1 @ row_rule @ str ''<img src=x>''
        @ row_message)
      @ str ''a &lt; b''
      @ (row_suggestions @ str ''-'' @ row_context @ row_end @ html_foot)"
    unfolding html row by simp
  then have 3: "sublist (str ''a &lt; b'') (buildReportHTML ?r)"
    by (metis sublist_appendI)
  from 1 2 3 show ?thesis by blast
qed

section \<open>Facts about the report-bundle request\<close>

lemma runLanguageTool_failure:
  assumes "i < length (snd (runLanguageTool cfg svc t lang))"
    and "isl (svc i (snd (runLanguageTool cfg svc t lang) ! i))"
  shows "isl (fst (runLanguageTool cfg svc t lang))"
proof -
  obtain res sent where run: "runLanguageTool cfg svc t lang = (res, sent)"
    by (cases "runLanguageTool cfg svc t lang")
  then have "lt_loop cfg svc lang (slices 0 t) [] [] = (res, sent)"
    by (simp add: runLanguageTool_def)
  from lt_loop_failure [OF this, of i] assms run show ?thesis
    by simp
qed

lemma report_bundle_log:
  "snd (report_bundle env lang name cleaned cleanedName t)
     = snd (runLanguageTool (configuration env) (service env) t lang)"
  by (simp add: report_bundle_def Let_def split: prod.splits sum.splits)

lemma report_bundle_failure:
  "isl (fst (runLanguageTool (configuration env) (service env) t lang)) \<Longrightarrow>
   isl (fst (report_bundle env lang name cleaned cleanedName t))"
  by (auto simp: report_bundle_def Let_def split: prod.splits sum.splits)

lemma clean_v2_try_failure:
  assumes "i < length (snd (clean_v2_try env f lang))"
    and "isl (service env i (snd (clean_v2_try env f lang) ! i))"
  shows "isl (fst (clean_v2_try env f lang))"
proof -
  have rb: "isl (fst (report_bundle env lang name cleaned cleanedName t))"
    if "i < length (snd (report_bundle env lang name cleaned cleanedName t))"
      and "isl (service env i (snd (report_bundle env lang name cleaned cleanedName t) ! i))"
    for name cleaned cleanedName t
    using that runLanguageTool_failure [of i "configuration env" "service env" t lang]
    by (simp add: report_bundle_log report_bundle_failure)
  show ?thesis
    using assms rb
    by (auto simp: clean_v2_try_def Let_def split: if_splits sum.splits)
qed

text \<open>
  C5. When a request that the client has issued is rejected (an error or the timeout of
  the HTTP call), \<^verbatim>\<open>runLanguageTool\<close> ends with that exception and returns no matches, and
  the handler of \<^verbatim>\<open>/clean-v2\<close> answers with the error 500: neither the archive nor the
  cleaned document is sent.
\<close>

theorem rejected_request_fails_bundle:
  "(i < length (snd (runLanguageTool cfg svc t lang))
      \<and> isl (svc i (snd (runLanguageTool cfg svc t lang) ! i))
      \<longrightarrow> (\<exists>e. fst (runLanguageTool cfg svc t lang) = Inl e))
   \<and> (j < length (snd (clean_v2 env req))
      \<and> isl (service env j (snd (clean_v2 env req) ! j))
      \<longrightarrow> fst (clean_v2 env req) = Error 500 (str ''Processing failed (V2)''))"
proof -
  have client: "\<exists>e. fst (runLanguageTool cfg svc t lang) = Inl e"
    if "i < length (snd (runLanguageTool cfg svc t lang))"
      and "isl (svc i (snd (runLanguageTool cfg svc t lang) ! i))"
    using runLanguageTool_failure [OF that] by (auto simp: isl_def)
  have handler: "fst (clean_v2 env req) = Error 500 (str ''Processing failed (V2)'')"
    if a: "j < length (snd (clean_v2 env req))"
      and b: "isl (service env j (snd (clean_v2 env req) ! j))"
  proof (cases "req_file req")
    case None
    with a show ?thesis by (simp add: clean_v2_def)
  next
    case (Some f)
    define lang' where "lang' = (case lt_language req of
        None \<Rightarrow> str ''auto'' | Some l \<Rightarrow> if l = [] then str ''auto'' else l)"
    have log: "snd (clean_v2 env req) = snd (clean_v2_try env f lang')"
      using Some by (simp add: clean_v2_def lang'_def Let_def split: prod.splits sum.splits)
    with a b have "isl (fst (clean_v2_try env f lang'))"
      using clean_v2_try_failure [of j env f lang'] by simp
    with Some show ?thesis
      by (auto simp: clean_v2_def lang'_def Let_def isl_def split: prod.splits sum.splits)
  qed
  from client handler show ?thesis by blast
qed

theorem rejected_request_fails_bundle_witness:
  "clean_v2 sample_env sample_request
     = (Error 500 (str ''Processing failed (V2)''),
        [\<lparr>req_text = str ''Bonjour le monde'', req_language = str ''auto'', req_apiKey = None\<rparr>])"
proof -
  have norm: "cleanTextBasic (str ''Bonjour  le monde'') = str ''Bonjour le monde''"
    by (simp add: cleanTextBasic_def strip_zwsp_def is_sp_tab_def is_sp_def is_punct_def
        skip_space_def trim_def is_ws_def str_def SP_def TAB_def NL_def DOT_def ZWSP_def)
  have chunks: "slices 0 (str ''Bonjour le monde'') = [str ''Bonjour le monde'']"
    by (rule slices_short) (simp_all add: limit_def str_def)
  have nonblank: "trim (str ''Bonjour le monde'') \<noteq> []"
    by (simp add: trim_def is_ws_def str_def)
  have ext: "suffix (str ''.pdf'') (toLowerCase (str ''Plan.PDF''))"
    by (simp add: toLowerCase_def str_def suffix_to_prefix)
  have auto: "str ''auto'' \<noteq> []"
    by (simp add: str_def)
  have usv: "toUSVString (str ''Bonjour le monde'') = str ''Bonjour le monde''"
    "toUSVString (str ''auto'') = str ''auto''"
    by (rule toUSVString_well_formed, simp add: str_def is_lead_def is_trail_def)+
  have log: "snd (clean_v2 sample_env sample_request)
      = [\<lparr>req_text = str ''Bonjour le monde'', req_language = str ''auto'', req_apiKey = None\<rparr>]"
    using nonblank ext auto usv
    by (simp add: clean_v2_def clean_v2_try_def sample_env_def sample_request_def Let_def
        processPDFBasic_def extractTextFromPDF_def norm report_bundle_def
        runLanguageTool_def chunks failing_service_def payload_def sample_config_def)
  have "isl (service sample_env 0 (snd (clean_v2 sample_env sample_request) ! 0))"
    by (simp add: sample_env_def failing_service_def)
  with rejected_request_fails_bundle
      [of 0 sample_config failing_service "[]" "[]" 0 sample_env sample_request] log
  have "fst (clean_v2 sample_env sample_request) = Error 500 (str ''Processing failed (V2)'')"
    by simp
  with log show ?thesis
    by (simp add: prod_eq_iff)
qed

section \<open>The normalizer is idempotent\<close>

lemma units_distinct:
  "SP \<noteq> NL" "SP \<noteq> DOT" "SP \<noteq> ZWSP" "SP \<noteq> TAB" "NL \<noteq> SP" "DOT \<noteq> SP"
  "\<not> is_punct SP" "is_ws SP" "is_sp SP" "is_sp_tab SP"
  by (simp_all add: SP_def NL_def DOT_def ZWSP_def TAB_def is_punct_def is_ws_def is_sp_def
      is_sp_tab_def)

lemma sp_simps: "sp True = [SP]" "sp False = []"
  by (simp_all add: sp_def)

lemma lastc_Cons: "lastc p ((g, c) # xs) = lastc (Some c) xs"
  by (simp add: lastc_def)

lemma lastc_tr: "lastc p (tr F q xs) = lastc p xs"
proof (induction xs arbitrary: p q)
  case Nil
  then show ?case by (simp add: lastc_def)
next
  case (Cons x xs)
  obtain g c where "x = (g, c)" by (cases x)
  with Cons [of "Some c" "Some c"] show ?case by (simp add: lastc_Cons)
qed

lemma tr_units: "map snd (tr F p xs) = map snd xs"
  by (induction xs arbitrary: p) auto

lemma plain_units: "plain xs \<longleftrightarrow> (\<forall>c \<in> set (map snd xs). c \<noteq> SP \<and> c \<noteq> TAB \<and> c \<noteq> ZWSP)"
  by (auto simp: plain_def)

lemma plain_tr: "plain (tr F p xs) = plain xs"
  by (simp only: plain_units tr_units)

lemma drop_gap: "\<not> is_sp c \<Longrightarrow> dropWhile is_sp (sp g @ c # w) = c # w"
  by (cases g) (simp_all add: sp_simps units_distinct)

lemma plain_Cons: "plain ((g, c) # xs) \<longleftrightarrow> c \<noteq> SP \<and> c \<noteq> TAB \<and> c \<noteq> ZWSP \<and> plain xs"
  by (auto simp: plain_def)

lemma tr_tr: "tr G p (tr F p xs) = tr (\<lambda>p g n. G p (F p g n) n) p xs"
  by (induction xs arbitrary: p) auto

text \<open>The first two replacements leave a text of this form as it is.\<close>

lemma strip_zwsp_render: "plain xs \<Longrightarrow> strip_zwsp (render xs t) = render xs t"
  by (induction xs) (auto simp: strip_zwsp_def sp_def plain_Cons units_distinct)

lemma collapse_blanks_plain:
  "c \<noteq> SP \<Longrightarrow> c \<noteq> TAB \<Longrightarrow> collapse_blanks (c # w) = c # collapse_blanks w"
  by (simp add: is_sp_tab_def)

lemma collapse_blanks_render: "plain xs \<Longrightarrow> collapse_blanks (render xs t) = render xs t"
proof (induction xs)
  case Nil
  then show ?case by (simp add: sp_def units_distinct)
next
  case (Cons x xs)
  obtain g c where x: "x = (g, c)" by (cases x)
  with Cons.prems have c: "c \<noteq> SP" "c \<noteq> TAB" and "plain xs"
    by (simp_all add: plain_Cons)
  with Cons.IH have "collapse_blanks (c # render xs t) = c # render xs t"
    by (simp add: is_sp_tab_def)
  moreover have "dropWhile is_sp_tab (c # render xs t) = c # render xs t"
    using c by (simp add: is_sp_tab_def)
  ultimately show ?case
    by (simp add: x sp_def units_distinct)
qed

text \<open>The third replacement: a gap beside a newline goes.\<close>

lemma trim_newlines_render:
  assumes "plain xs"
  shows "trim_newlines (if p = Some NL then dropWhile is_sp (render xs t) else render xs t)
    = render (tr F3 p xs) (F3 (lastc p xs) t None)"
  using assms
proof (induction xs arbitrary: p)
  case Nil
  then show ?case
    by (simp add: sp_def F3_def lastc_def units_distinct)
next
  case (Cons x xs)
  obtain g c where x: "x = (g, c)" by (cases x)
  with Cons.prems have c: "c \<noteq> SP" and pl: "plain xs"
    by (simp_all add: plain_Cons)
  from c have nsp: "\<not> is_sp c"
    by (simp add: is_sp_def)
  let ?R = "render xs t"
  let ?out = "render (tr F3 (Some c) xs) (F3 (lastc (Some c) xs) t None)"
  have at_c: "trim_newlines (c # ?R) = c # ?out"
    using Cons.IH [OF pl, of "Some c"] nsp by (simp split: if_splits)
  have at_sp: "trim_newlines (SP # c # ?R) = sp (c \<noteq> NL) @ c # ?out"
    using at_c nsp by (simp add: sp_simps units_distinct split: if_splits)
  show ?case
  proof (cases "p = Some NL \<or> \<not> g")
    case True
    then have "(if p = Some NL then dropWhile is_sp (render (x # xs) t) else render (x # xs) t)
        = c # ?R"
      using nsp by (cases g) (auto simp: x sp_simps units_distinct)
    moreover from True have "\<not> F3 p g (Some c)"
      by (auto simp: F3_def)
    ultimately show ?thesis
      by (simp add: x at_c sp_simps lastc_Cons del: trim_newlines.simps)
  next
    case False
    then have "(if p = Some NL then dropWhile is_sp (render (x # xs) t) else render (x # xs) t)
        = SP # c # ?R"
      by (simp add: x sp_simps)
    moreover from False have "F3 p g (Some c) \<longleftrightarrow> c \<noteq> NL"
      by (auto simp: F3_def)
    ultimately show ?thesis
      by (simp add: x at_sp lastc_Cons del: trim_newlines.simps)
  qed
qed

text \<open>
  The fourth replacement: a space follows each punctuation mark, none precedes it unless
  it belongs to the mark before.
\<close>

lemma space_punct_render:
  assumes "plain xs"
  shows "(if punct p then SP # space_punct (skip_space (render xs t)) else space_punct (render xs t))
    = render (tr F4 p xs) (F4 (lastc p xs) t None)"
  using assms
proof (induction xs arbitrary: p)
  case Nil
  then show ?case
    by (simp add: sp_def F4_def lastc_def punct_def skip_space_def units_distinct)
next
  case (Cons x xs)
  obtain g c where x: "x = (g, c)" by (cases x)
  with Cons.prems have c: "c \<noteq> SP" and pl: "plain xs"
    by (simp_all add: plain_Cons)
  let ?R = "render xs t"
  let ?out = "render (tr F4 (Some c) xs) (F4 (lastc (Some c) xs) t None)"
  have at_c: "space_punct (c # ?R) = c # ?out"
    using Cons.IH [OF pl, of "Some c"] c by (simp add: punct_def split: if_splits)
  have at_sp: "space_punct (SP # c # ?R) = sp (\<not> is_punct c) @ c # ?out"
    using at_c c by (simp add: sp_simps units_distinct split: if_splits)
  have skip: "skip_space (sp g @ c # ?R) = c # ?R"
    using c by (cases g) (simp_all add: sp_simps skip_space_def)
  show ?case
  proof (cases "punct p")
    case True
    then have "F4 p g (Some c)" by (simp add: F4_def)
    with True show ?thesis
      by (simp add: x skip at_c lastc_Cons sp_simps del: space_punct.simps)
  next
    case False
    then have "F4 p g (Some c) \<longleftrightarrow> g \<and> \<not> is_punct c"
      by (simp add: F4_def punct_def)
    with False show ?thesis
      by (cases g) (simp_all add: x at_sp at_c lastc_Cons sp_simps del: space_punct.simps)
  qed
qed

text \<open>The fifth replacement: no space before a full stop.\<close>

lemma unspace_dot_plain: "c \<noteq> SP \<Longrightarrow> unspace_dot (c # w) = c # unspace_dot w"
  by (cases w) simp_all

lemma unspace_dot_render:
  assumes "plain xs"
  shows "unspace_dot (render xs t) = render (tr F5 p xs) (F5 (lastc p xs) t None)"
  using assms
proof (induction xs arbitrary: p)
  case Nil
  then show ?case
    by (simp add: sp_def F5_def lastc_def)
next
  case (Cons x xs)
  obtain g c where x: "x = (g, c)" by (cases x)
  with Cons.prems have c: "c \<noteq> SP" and pl: "plain xs"
    by (simp_all add: plain_Cons)
  let ?R = "render xs t"
  let ?out = "render (tr F5 (Some c) xs) (F5 (lastc (Some c) xs) t None)"
  have at_c: "unspace_dot (c # ?R) = c # ?out"
    using Cons.IH [OF pl, of "Some c"] c by (simp add: unspace_dot_plain)
  have at_sp: "unspace_dot (SP # c # ?R) = sp (c \<noteq> DOT) @ c # ?out"
    using at_c c by (simp add: sp_simps unspace_dot_plain)
  have flag: "F5 p h (Some c) \<longleftrightarrow> h \<and> c \<noteq> DOT" for h
    by (simp add: F5_def)
  show ?case
    by (cases g) (simp_all add: x at_sp at_c lastc_Cons sp_simps flag del: unspace_dot.simps)
qed

text \<open>The sixth replacement finds no run of spaces.\<close>

lemma collapse_spaces_plain: "c \<noteq> SP \<Longrightarrow> collapse_spaces (c # w) = c # collapse_spaces w"
  by (cases w) simp_all

lemma collapse_spaces_render: "plain xs \<Longrightarrow> collapse_spaces (render xs t) = render xs t"
proof (induction xs)
  case Nil
  then show ?case by (simp add: sp_def)
next
  case (Cons x xs)
  obtain g c where x: "x = (g, c)" by (cases x)
  with Cons.prems have c: "c \<noteq> SP" and "plain xs"
    by (simp_all add: plain_Cons)
  with Cons.IH have "collapse_spaces (c # render xs t) = c # render xs t"
    by (simp add: collapse_spaces_plain)
  then show ?case
    using c by (simp add: x sp_def)
qed

text \<open>After the first two replacements every text has this form.\<close>

lemma lead_gap:
  assumes "nogap xs t" and "plain xs"
  shows "\<exists>xs' t'. plain xs' \<and> SP # render xs t = render xs' t'"
proof (cases xs)
  case Nil
  with assms have "SP # render xs t = render [] True"
    by (simp add: nogap_def sp_simps)
  then show ?thesis
    using plain_def by fastforce
next
  case (Cons x ys)
  obtain g c where x: "x = (g, c)" by (cases x)
  with Cons assms have "SP # render xs t = render ((True, c) # ys) t"
    by (simp add: nogap_def sp_simps)
  moreover from Cons x assms(2) have "plain ((True, c) # ys)"
    by (simp add: plain_Cons)
  ultimately show ?thesis by blast
qed

lemma collapse_blanks_form:
  "ZWSP \<notin> set u \<Longrightarrow>
   \<exists>xs t. plain xs \<and> collapse_blanks u = render xs t
     \<and> ((u = [] \<or> \<not> is_sp_tab (hd u)) \<longrightarrow> nogap xs t)"
proof (induction u rule: collapse_blanks.induct)
  case 1
  have "plain [] \<and> collapse_blanks [] = render [] False \<and> nogap [] False"
    by (simp add: plain_def nogap_def sp_simps)
  then show ?case by blast
next
  case (2 c cs)
  show ?case
  proof (cases "is_sp_tab c")
    case True
    have "ZWSP \<notin> set (dropWhile is_sp_tab cs)"
      using "2.prems" set_dropWhileD by fastforce
    from "2.IH"(1) [OF True this] obtain xs t where
      xs: "plain xs" "collapse_blanks (dropWhile is_sp_tab cs) = render xs t"
        "(dropWhile is_sp_tab cs = [] \<or> \<not> is_sp_tab (hd (dropWhile is_sp_tab cs))) \<longrightarrow> nogap xs t"
      by blast
    have "dropWhile is_sp_tab cs = [] \<or> \<not> is_sp_tab (hd (dropWhile is_sp_tab cs))"
      using hd_dropWhile by blast
    with xs have "nogap xs t" by blast
    from lead_gap [OF this xs(1)] obtain xs' t' where
      "plain xs'" "SP # render xs t = render xs' t'"
      by blast
    with True xs(2) show ?thesis
      by auto
  next
    case False
    from "2.prems" have "ZWSP \<notin> set cs" by simp
    from "2.IH"(2) [OF False this] obtain xs t where
      xs: "plain xs" "collapse_blanks cs = render xs t"
      by blast
    from False "2.prems" xs(1) have "plain ((False, c) # xs)"
      by (auto simp: plain_Cons is_sp_tab_def)
    moreover from False xs(2) have "collapse_blanks (c # cs) = render ((False, c) # xs) t"
      by (simp add: sp_simps)
    moreover have "nogap ((False, c) # xs) t"
      by (simp add: nogap_def)
    ultimately show ?thesis by blast
  qed
qed

lemma first_steps_form: "\<exists>xs t. plain xs \<and> collapse_blanks (strip_zwsp s) = render xs t"
proof -
  have "ZWSP \<notin> set (strip_zwsp s)"
    by (simp add: strip_zwsp_def)
  from collapse_blanks_form [OF this] show ?thesis by blast
qed

text \<open>\<^verbatim>\<open>trim\<close> on a text of this form.\<close>

lemma dropWhile_render:
  "dropWhile is_ws (render xs t) =
     (case dropWhile wsx xs of [] \<Rightarrow> [] | (g, c) # ys \<Rightarrow> c # render ys t)"
proof (induction xs)
  case Nil
  then show ?case by (simp add: sp_def units_distinct)
next
  case (Cons x xs)
  obtain g c where x: "x = (g, c)" by (cases x)
  have "dropWhile is_ws (sp g @ c # render xs t) = dropWhile is_ws (c # render xs t)"
    by (cases g) (simp_all add: sp_simps units_distinct)
  with Cons show ?case
    by (simp add: x wsx_def)
qed

lemma render_snoc: "render (xs @ [(g, c)]) t = render xs g @ c # sp t"
  by (induction xs) auto

lemma dropWhile_rev_step:
  "\<not> P c \<Longrightarrow> rev (dropWhile P (rev (c # w))) = c # rev (dropWhile P (rev w))"
proof (cases "\<forall>x \<in> set (rev w). P x")
  case True
  assume c: "\<not> P c"
  from True have "dropWhile P (rev w @ [c]) = dropWhile P [c]"
    by (intro dropWhile_append2) auto
  with c have "dropWhile P (rev w @ [c]) = [c]"
    by simp
  moreover from True have "dropWhile P (rev w) = []"
    by simp
  ultimately show ?thesis by simp
next
  case False
  then obtain x where "x \<in> set (rev w)" "\<not> P x" by blast
  then have "dropWhile P (rev w @ [c]) = dropWhile P (rev w) @ [c]"
    by (rule dropWhile_append1)
  then show ?thesis by simp
qed

lemma dropWhile_rev_render:
  "rev (dropWhile is_ws (rev (render xs t))) = render (rev (dropWhile wsx (rev xs))) False"
proof (induction xs arbitrary: t rule: rev_induct)
  case Nil
  then show ?case by (simp add: sp_def units_distinct)
next
  case (snoc x xs)
  obtain g c where x: "x = (g, c)" by (cases x)
  have drop_t: "dropWhile is_ws (rev (sp t) @ c # rev (render xs g))
      = dropWhile is_ws (c # rev (render xs g))"
    by (cases t) (simp_all add: sp_simps units_distinct)
  show ?case
  proof (cases "is_ws c")
    case True
    with snoc [of g] drop_t show ?thesis
      by (simp add: x render_snoc wsx_def)
  next
    case False
    with drop_t show ?thesis
      by (simp add: x render_snoc wsx_def sp_simps)
  qed
qed

lemma trim_render: "trim (render xs t) = render (core xs) False"
proof (cases "dropWhile wsx xs")
  case Nil
  show ?thesis
    unfolding trim_def dropWhile_render core_def Nil by (simp add: sp_simps)
next
  case (Cons x ys)
  obtain g c where x: "x = (g, c)" by (cases x)
  have "\<not> wsx (hd (dropWhile wsx xs))"
    using Cons hd_dropWhile [of wsx xs] by simp
  with Cons x have "\<not> is_ws c"
    by (simp add: wsx_def)
  then have "rev (dropWhile is_ws (rev (c # render ys t)))
      = c # rev (dropWhile is_ws (rev (render ys t)))"
    by (rule dropWhile_rev_step)
  then have "rev (dropWhile is_ws (rev (c # render ys t)))
      = c # render (rev (dropWhile wsx (rev ys))) False"
    by (simp only: dropWhile_rev_render)
  then show ?thesis
    unfolding trim_def dropWhile_render core_def Cons x by (simp add: sp_simps)
qed

lemma plain_core: "plain xs \<Longrightarrow> plain (core xs)"
proof (cases "dropWhile wsx xs")
  case Nil
  show ?thesis
    unfolding core_def Nil by (simp add: plain_def)
next
  case (Cons x ys)
  assume pl: "plain xs"
  obtain g c where x: "x = (g, c)" by (cases x)
  have sub: "set (dropWhile wsx xs) \<subseteq> set xs"
    by (auto dest: set_dropWhileD)
  with Cons x pl have c: "c \<noteq> SP \<and> c \<noteq> TAB \<and> c \<noteq> ZWSP"
    by (auto simp: plain_def)
  have "set (rev (dropWhile wsx (rev ys))) \<subseteq> set ys"
    by (auto dest: set_dropWhileD)
  with sub Cons pl have "plain (rev (dropWhile wsx (rev ys)))"
    unfolding plain_def by (metis set_subset_Cons subsetD)
  with c show ?thesis
    unfolding core_def Cons x by (simp add: plain_Cons)
qed

text \<open>All the steps from the third on, as one step on the gaps.\<close>

lemma H_idem: "H p (H p g n) n = H p g n"
  by (auto simp: H_def F3_def F4_def F5_def)

lemma later_steps_render:
  assumes "plain xs"
  shows "trim (collapse_spaces (unspace_dot (space_punct (trim_newlines (render xs t)))))
    = render (core (tr H None xs)) False"
proof -
  define t3 where "t3 = F3 (lastc None xs) t None"
  define t4 where "t4 = F4 (lastc None xs) t3 None"
  define t5 where "t5 = F5 (lastc None xs) t4 None"
  have 3: "trim_newlines (render xs t) = render (tr F3 None xs) t3"
    using trim_newlines_render [OF assms, of None t] by (simp add: t3_def)
  have p3: "plain (tr F3 None xs)"
    using assms by (simp add: plain_tr)
  have 4: "space_punct (render (tr F3 None xs) t3) = render (tr F4 None (tr F3 None xs)) t4"
    using space_punct_render [OF p3, of None t3] by (simp add: t4_def punct_def lastc_tr)
  have p4: "plain (tr F4 None (tr F3 None xs))"
    using p3 by (simp add: plain_tr)
  have 5: "unspace_dot (render (tr F4 None (tr F3 None xs)) t4)
      = render (tr F5 None (tr F4 None (tr F3 None xs))) t5"
    using unspace_dot_render [OF p4, of t4 None] by (simp add: t5_def lastc_tr)
  have p5: "plain (tr F5 None (tr F4 None (tr F3 None xs)))"
    using p4 by (simp add: plain_tr)
  have "tr F5 None (tr F4 None (tr F3 None xs)) = tr H None xs"
    by (simp add: tr_tr H_def [abs_def])
  with 3 4 5 p5 show ?thesis
    by (simp add: collapse_spaces_render trim_render)
qed

lemma tr_append: "tr F p (xs @ ys) = tr F p xs @ tr F (lastc p xs) ys"
proof (induction xs arbitrary: p)
  case Nil
  then show ?case by (simp add: lastc_def)
next
  case (Cons x xs)
  obtain g c where "x = (g, c)" by (cases x)
  with Cons [of "Some c"] show ?case by (simp add: lastc_Cons)
qed

lemma length_tr: "length (tr F p xs) = length xs"
  by (induction xs arbitrary: p) auto

lemma tr_stable_prefix: "tr F p (xs @ ys) = xs @ ys \<Longrightarrow> tr F p xs = xs"
  by (simp add: tr_append length_tr)

lemma tr_stable_suffix: "tr F p (xs @ ys) = xs @ ys \<Longrightarrow> tr F (lastc p xs) ys = ys"
  by (simp add: tr_append length_tr)

lemma tr_H_stable: "tr H p (tr H p xs) = tr H p xs"
  by (simp add: tr_tr H_idem)

text \<open>On the gaps, normalizing a normalized text changes nothing.\<close>

lemma core_stable:
  assumes "tr H None w = w"
  shows "core (tr H None (core w)) = core w"
proof (cases "dropWhile wsx w")
  case Nil
  show ?thesis
    unfolding core_def Nil by simp
next
  case (Cons x b)
  obtain g c where x: "x = (g, c)" by (cases x)
  define z where "z = rev (dropWhile wsx (rev b))"
  have cw: "core w = (False, c) # z"
    unfolding core_def Cons x z_def by simp
  have "\<not> wsx (hd (dropWhile wsx w))"
    using Cons hd_dropWhile [of wsx w] by simp
  with Cons x have nws: "\<not> wsx (g', c)" for g'
    by (simp add: wsx_def)
  have "w = takeWhile wsx w @ (g, c) # b"
    using Cons x takeWhile_dropWhile_id [of wsx w] by simp
  with assms have "tr H None (takeWhile wsx w @ (g, c) # b) = takeWhile wsx w @ (g, c) # b"
    by simp
  then have "tr H (lastc None (takeWhile wsx w)) ((g, c) # b) = (g, c) # b"
    by (rule tr_stable_suffix)
  then have b: "tr H (Some c) b = b"
    by simp
  have "rev b = takeWhile wsx (rev b) @ dropWhile wsx (rev b)"
    by simp
  then have "b = z @ rev (takeWhile wsx (rev b))"
    unfolding z_def by (metis rev_append rev_rev_ident)
  with b have "tr H (Some c) (z @ rev (takeWhile wsx (rev b))) = z @ rev (takeWhile wsx (rev b))"
    by simp
  then have z: "tr H (Some c) z = z"
    by (rule tr_stable_prefix)
  have "rev (dropWhile wsx (rev z)) = z"
    by (simp add: z_def dropWhile_idem)
  with nws have "core ((g', c) # z) = (False, c) # z" for g'
    by (simp add: core_def)
  moreover have "tr H None (core w) = (H None False (Some c), c) # z"
    by (simp add: cw z)
  ultimately show ?thesis
    by (simp add: cw)
qed

text \<open>
  C3. The normalizer applied to its own result returns that result, for every string;
  the string of the scenario normalizes as the specification says.
\<close>

theorem cleanTextBasic_idempotent:
  "cleanTextBasic (cleanTextBasic s) = cleanTextBasic s
   \<and> cleanTextBasic (str ''Hello  world ,test'') = str ''Hello world, test''"
proof -
  have example: "cleanTextBasic (str ''Hello  world ,test'') = str ''Hello world, test''"
    by (simp add: cleanTextBasic_def strip_zwsp_def is_sp_tab_def is_sp_def is_punct_def
        skip_space_def trim_def is_ws_def str_def SP_def TAB_def NL_def DOT_def ZWSP_def)
  obtain xs t where xs: "plain xs" "collapse_blanks (strip_zwsp s) = render xs t"
    using first_steps_form by blast
  define w where "w = tr H None xs"
  have stable: "tr H None w = w"
    by (simp add: w_def tr_H_stable)
  have pw: "plain (core w)"
    using xs(1) by (simp add: w_def plain_core plain_tr)
  have once: "trim (collapse_spaces (unspace_dot (space_punct (trim_newlines
      (collapse_blanks (strip_zwsp s)))))) = render (core w) False"
    using later_steps_render [OF xs(1)] by (simp add: xs(2) w_def)
  have twice: "trim (collapse_spaces (unspace_dot (space_punct (trim_newlines
      (collapse_blanks (strip_zwsp (render (core w) False))))))) = render (core w) False"
    using later_steps_render [OF pw, of False] core_stable [OF stable]
    by (simp add: strip_zwsp_render [OF pw] collapse_blanks_render [OF pw])
  have "cleanTextBasic (cleanTextBasic s) = cleanTextBasic s"
  proof (cases "s = []")
    case True
    then show ?thesis by (simp add: cleanTextBasic_def)
  next
    case False
    then have "cleanTextBasic s = render (core w) False"
      by (simp add: cleanTextBasic_def once)
    then show ?thesis
      using twice by (simp add: cleanTextBasic_def)
  qed
  with example show ?thesis by blast
qed

end
